theory Spec2Isabelle
  imports Main
begin

section \<open>Python strings\<close>

text \<open>
  A Python \<open>str\<close> is a sequence of Unicode code points; \<open>len\<close> counts code points.
  A code point is modelled as a natural number and a string as a list of them.
  \<open>ascii\<close> turns a literal into such a list. The code points written as numbers below:
  9 is TAB, 10 is LF, 13 is CR, 32 is the space, 35 is \<open>#\<close>, 58 is \<open>:\<close>, 61 is \<open>=\<close>
  and 92 is the backslash.
\<close>

type_synonym pystr = "nat list"

definition ascii :: "string \<Rightarrow> pystr" where
  "ascii s = map of_char s"

text \<open>
  The characters at which \<open>str.splitlines\<close> breaks a line: LF, VT, FF, CR, FS, GS, RS,
  NEL, LINE SEPARATOR and PARAGRAPH SEPARATOR.
\<close>

definition is_linebreak :: "nat \<Rightarrow> bool" where
  "is_linebreak c = (c \<in> set [10, 11, 12, 13, 28, 29, 30, 133, 8232, 8233])"

text \<open>The characters that \<open>str.strip()\<close> and \<open>str.split()\<close> treat as whitespace.\<close>

definition is_space :: "nat \<Rightarrow> bool" where
  "is_space c = (c \<in> set [9, 10, 11, 12, 13, 28, 29, 30, 31, 32, 133, 160, 5760,
                           8232, 8233, 8239, 8287, 12288]
                 \<or> (8192 \<le> c \<and> c \<le> 8202))"

text \<open>
  \<open>s.splitlines()\<close>: the lines of \<open>s\<close> without their line breaks. CR LF is one break;
  a break at the very end opens no further line; the empty string has no line.
\<close>

fun splitlines :: "pystr \<Rightarrow> pystr list" where
  "splitlines [] = []"
| "splitlines (c # cs) =
     (if is_linebreak c
      then [] # splitlines (if c = 13 \<and> take 1 cs = [10] then tl cs else cs)
      else (case splitlines cs of
              [] \<Rightarrow> [[c]]
            | l # ls \<Rightarrow> (c # l) # ls))"

text \<open>\<open>s.strip()\<close>: leading and trailing whitespace removed.\<close>

definition strip :: "pystr \<Rightarrow> pystr" where
  "strip s = rev (dropWhile is_space (rev (dropWhile is_space s)))"

text \<open>\<open>s.split()\<close>: the maximal runs of non-whitespace characters.\<close>

function split_ws :: "pystr \<Rightarrow> pystr list" where
  "split_ws [] = []"
| "split_ws (c # cs) =
     (if is_space c then split_ws cs
      else takeWhile (\<lambda>x. \<not> is_space x) (c # cs)
             # split_ws (dropWhile (\<lambda>x. \<not> is_space x) cs))"
  by pat_completeness auto
termination
  by (relation "measure length") (auto simp: le_imp_less_Suc length_dropWhile_le)

text \<open>\<open>s.split(sep)\<close> for a one-character separator: the pieces between separators.\<close>

fun split_sep :: "nat \<Rightarrow> pystr \<Rightarrow> pystr list" where
  "split_sep sep [] = [[]]"
| "split_sep sep (c # cs) =
     (if c = sep then [] # split_sep sep cs
      else (case split_sep sep cs of
              [] \<Rightarrow> [[c]]
            | l # ls \<Rightarrow> (c # l) # ls))"

text \<open>
  \<open>s.replace('\\\n', '')\<close>: scanning from the left, every backslash directly followed
  by LF is dropped together with that LF.
\<close>

fun remove_continuations :: "pystr \<Rightarrow> pystr" where
  "remove_continuations (a # b # cs) =
     (if a = 92 \<and> b = 10 then remove_continuations cs
      else a # remove_continuations (b # cs))"
| "remove_continuations cs = cs"

text \<open>\<open>'\n'.join(lines)\<close>.\<close>

fun join_lines :: "pystr list \<Rightarrow> pystr" where
  "join_lines [] = []"
| "join_lines [l] = l"
| "join_lines (l # ls) = l @ [10] @ join_lines ls"

text \<open>\<open>s[1:-1]\<close>: without the first and the last character; empty when \<open>len(s) < 2\<close>.\<close>

definition slice_1_neg1 :: "pystr \<Rightarrow> pystr" where
  "slice_1_neg1 s = take (length s - 2) (drop 1 s)"

subsection \<open>Raising\<close>

datatype error = IndexError

text \<open>\<open>xs[i]\<close>: negative indices count from the end; out of range raises.\<close>

definition py_index :: "'a list \<Rightarrow> int \<Rightarrow> error + 'a" where
  "py_index xs i =
     (if 0 \<le> i \<and> i < int (length xs) then Inr (xs ! nat i)
      else if i < 0 \<and> - int (length xs) \<le> i then Inr (xs ! nat (int (length xs) + i))
      else Inl IndexError)"

fun bind_err :: "error + 'a \<Rightarrow> ('a \<Rightarrow> error + 'b) \<Rightarrow> error + 'b" where
  "bind_err (Inl e) f = Inl e"
| "bind_err (Inr x) f = f x"

text \<open>\<open>a and b\<close>: the right operand is evaluated only when the left one is true.\<close>

fun py_and :: "error + bool \<Rightarrow> error + bool \<Rightarrow> error + bool" where
  "py_and (Inl e) b = Inl e"
| "py_and (Inr False) b = Inr False"
| "py_and (Inr True) b = b"

section \<open>Paragraphs, sections, documents\<close>

record Paragraph =
  contents :: pystr

record Section =
  name :: "pystr option"
  paragraphs :: "Paragraph list"

record Makefile =
  sections :: "Section list"
  original :: pystr

definition get_logical_lines :: "Paragraph \<Rightarrow> pystr list" where
  "get_logical_lines p = splitlines (remove_continuations (contents p))"

definition header_line_full :: pystr where
  "header_line_full = replicate 80 35"

definition header_line_empty :: pystr where
  "header_line_empty = [35] @ replicate 78 32 @ [35]"


subsection \<open>Construction\<close>

text \<open>
  The first loop of \<open>Makefile.__init__\<close>: \<open>paras\<close> (the source's \<open>paragraphs\<close>)
  collects the finished paragraphs and \<open>plines\<close> the lines of the one being read; a
  line that is empty after \<open>strip()\<close> closes it.
\<close>

fun paragraph_loop ::
  "pystr list \<Rightarrow> Paragraph list \<Rightarrow> pystr list \<Rightarrow> Paragraph list \<times> pystr list" where
  "paragraph_loop [] paras plines = (paras, plines)"
| "paragraph_loop (line # lines) paras plines =
     (if strip line = []
      then (if plines \<noteq> []
            then paragraph_loop lines (paras @ [\<lparr>contents = join_lines plines\<rparr>]) []
            else paragraph_loop lines paras plines)
      else paragraph_loop lines paras (plines @ [line]))"

definition break_paragraphs :: "pystr list \<Rightarrow> Paragraph list" where
  "break_paragraphs lines =
     (case paragraph_loop lines [] [] of
        (paras, plines) \<Rightarrow>
          if plines \<noteq> [] then paras @ [\<lparr>contents = join_lines plines\<rparr>] else paras)"

text \<open>The test for a section header, with every subscript that could raise.\<close>

definition is_header :: "pystr list \<Rightarrow> error + bool" where
  "is_header plines =
     py_and (Inr (length plines = 5))
    (py_and (bind_err (py_index plines 0) (\<lambda>l. Inr (l = header_line_full)))
    (py_and (bind_err (py_index plines 1) (\<lambda>l. Inr (l = header_line_empty)))
    (py_and (bind_err (py_index plines 2) (\<lambda>l. Inr (length l = 80)))
    (py_and (bind_err (py_index plines 2) (\<lambda>l. bind_err (py_index l 0) (\<lambda>c. Inr (c = 35))))
    (py_and (bind_err (py_index plines 2) (\<lambda>l. bind_err (py_index l (- 1)) (\<lambda>c. Inr (c = 35))))
    (py_and (bind_err (py_index plines 3) (\<lambda>l. Inr (l = header_line_empty)))
            (bind_err (py_index plines 4) (\<lambda>l. Inr (l = header_line_full)))))))))"

text \<open>
  One round of the second loop. The state is the pair of the sections appended before
  the current one and the current section: the variable \<open>section\<close> of the source refers
  to the section appended last, so \<open>self.sections\<close> is \<open>prev @ [cur]\<close> throughout, and
  appending to \<open>section.paragraphs\<close> changes its last element.
\<close>

definition section_step ::
  "Section list \<times> Section \<Rightarrow> Paragraph \<Rightarrow> error + Section list \<times> Section" where
  "section_step st paragraph =
     (case st of (prev, cur) \<Rightarrow>
        let plines = splitlines (contents paragraph) in
        bind_err (is_header plines) (\<lambda>h.
          if h
          then bind_err (py_index plines 2) (\<lambda>title.
                 Inr (prev @ [cur],
                      \<lparr>name = Some (strip (slice_1_neg1 title)), paragraphs = []\<rparr>))
          else Inr (prev, cur\<lparr>paragraphs := paragraphs cur @ [paragraph]\<rparr>)))"

fun section_loop ::
  "Paragraph list \<Rightarrow> Section list \<times> Section \<Rightarrow> error + Section list \<times> Section" where
  "section_loop [] st = Inr st"
| "section_loop (p # ps) st = bind_err (section_step st p) (section_loop ps)"

definition Makefile_init :: "pystr \<Rightarrow> error + Makefile" where
  "Makefile_init inp =
     bind_err (section_loop (break_paragraphs (splitlines inp))
                 ([], \<lparr>name = None, paragraphs = []\<rparr>))
       (\<lambda>st. case st of (prev, cur) \<Rightarrow> Inr \<lparr>sections = prev @ [cur], original = inp\<rparr>)"

subsection \<open>Lookup\<close>

text \<open>
  \<open>any(test(line) for line in lines)\<close>: the lines are tested in order up to the first
  one that passes; a test that raises ends the search with its error.
\<close>

fun any_line :: "(pystr \<Rightarrow> error + bool) \<Rightarrow> pystr list \<Rightarrow> error + bool" where
  "any_line test [] = Inr False"
| "any_line test (line # lines) =
     bind_err (test line) (\<lambda>b. if b then Inr True else any_line test lines)"

text \<open>\<open>for i, paragraph in enumerate(section.paragraphs)\<close>, from index \<open>i\<close> on.\<close>

fun scan_paragraphs ::
  "(pystr \<Rightarrow> error + bool) \<Rightarrow> Section \<Rightarrow> nat \<Rightarrow> Paragraph list
     \<Rightarrow> (Section \<times> nat) list \<Rightarrow> error + (Section \<times> nat) list" where
  "scan_paragraphs test sec i [] found = Inr found"
| "scan_paragraphs test sec i (p # ps) found =
     bind_err (any_line test (get_logical_lines p)) (\<lambda>hit.
       scan_paragraphs test sec (Suc i) ps (if hit then found @ [(sec, i)] else found))"

fun scan_sections ::
  "(pystr \<Rightarrow> error + bool) \<Rightarrow> Section list \<Rightarrow> (Section \<times> nat) list
     \<Rightarrow> error + (Section \<times> nat) list" where
  "scan_sections test [] found = Inr found"
| "scan_sections test (sec # secs) found =
     bind_err (scan_paragraphs test sec 0 (paragraphs sec) found) (scan_sections test secs)"

text \<open>\<open>line.split('=')[0].strip() == name\<close>\<close>

definition assign_test :: "pystr \<Rightarrow> pystr \<Rightarrow> error + bool" where
  "assign_test nm line =
     bind_err (py_index (split_sep 61 line) 0) (\<lambda>lhs. Inr (strip lhs = nm))"

text \<open>\<open>line.split()[0] == name + ':'\<close>\<close>

definition target_test :: "pystr \<Rightarrow> pystr \<Rightarrow> error + bool" where
  "target_test nm line =
     bind_err (py_index (split_ws line) 0) (\<lambda>tok. Inr (tok = nm @ [58]))"

definition find_assigns :: "Makefile \<Rightarrow> pystr \<Rightarrow> error + (Section \<times> nat) list" where
  "find_assigns mk nm = scan_sections (assign_test nm) (sections mk) []"

definition find_targets :: "Makefile \<Rightarrow> pystr \<Rightarrow> error + (Section \<times> nat) list" where
  "find_targets mk nm = scan_sections (target_test nm) (sections mk) []"

subsection \<open>Serialization\<close>

text \<open>
  The title line of a banner. \<open>spacelen\<close> is a Python integer and may be negative for
  a long name; a string times a negative number is empty.
\<close>

definition title_line :: "pystr \<Rightarrow> pystr" where
  "title_line nm =
     (let spacelen = 78 - int (length nm);
          left = spacelen div 2;
          spacelen' = spacelen - spacelen div 2
      in [35] @ replicate (nat left) 32 @ nm @ replicate (nat spacelen') 32 @ [35])"

fun output_paragraphs :: "Paragraph list \<Rightarrow> bool \<Rightarrow> pystr \<Rightarrow> pystr" where
  "output_paragraphs [] did_first_entry output = output"
| "output_paragraphs (p # ps) did_first_entry output =
     output_paragraphs ps True
       ((if did_first_entry then output @ [10] else output) @ contents p @ [10])"

definition output_section :: "pystr \<Rightarrow> Section \<Rightarrow> pystr" where
  "output_section output sec =
     (case name sec of
        None \<Rightarrow> output_paragraphs (paragraphs sec) False output
      | Some nm \<Rightarrow>
          output_paragraphs (paragraphs sec) True
            (output @ [10, 10] @ header_line_full @ [10]
                    @ header_line_empty @ [10]
                    @ title_line nm @ [10]
                    @ header_line_empty @ [10]
                    @ header_line_full @ [10]))"

definition get_output :: "Makefile \<Rightarrow> pystr" where
  "get_output mk = foldl output_section [] (sections mk)"

section \<open>The specification's words\<close>

text \<open>
  The shape of a banner header as the specification describes it: five lines, the first
  and the fifth of 80 \<open>#\<close>, the second and the fourth \<open>#\<close>, 78 spaces, \<open>#\<close>, the third of
  80 characters with \<open>#\<close> at both ends.
\<close>

definition banner_header :: "pystr list \<Rightarrow> bool" where
  "banner_header ls =
     (length ls = 5
      \<and> ls ! 0 = replicate 80 35 \<and> ls ! 4 = replicate 80 35
      \<and> ls ! 1 = [35] @ replicate 78 32 @ [35] \<and> ls ! 3 = [35] @ replicate 78 32 @ [35]
      \<and> length (ls ! 2) = 80 \<and> hd (ls ! 2) = 35 \<and> last (ls ! 2) = 35)"

text \<open>The name of a header: the title line without its two ends, stripped.\<close>

definition header_name :: "pystr list \<Rightarrow> pystr" where
  "header_name plines = strip (slice_1_neg1 (plines ! 2))"

text \<open>
  Removing every occurrence of a continuation marker: position \<open>i\<close> of \<open>s\<close> belongs to a
  marker when it holds a backslash directly followed by a line feed, or a line feed
  directly after a backslash; the characters at all other positions stay, in order.
\<close>

definition in_marker :: "pystr \<Rightarrow> nat \<Rightarrow> bool" where
  "in_marker s i =
     ((s ! i = 92 \<and> Suc i < length s \<and> s ! Suc i = 10)
      \<or> (s ! i = 10 \<and> 0 < i \<and> s ! (i - 1) = 92))"

definition delete_markers :: "pystr \<Rightarrow> pystr" where
  "delete_markers s = map ((!) s) (filter (\<lambda>i. \<not> in_marker s i) [0..<length s])"

text \<open>
  The result of a lookup: for every section in order, the indices of its paragraphs that
  have a logical line passing the test \<open>t\<close>, each paired with the section.
\<close>

definition hits :: "(pystr \<Rightarrow> bool) \<Rightarrow> Section list \<Rightarrow> (Section \<times> nat) list" where
  "hits t secs =
     concat (map (\<lambda>sec. map (Pair sec)
                   (filter (\<lambda>i. \<exists>line\<in>set (get_logical_lines (paragraphs sec ! i)). t line)
                      [0..<length (paragraphs sec)])) secs)"

text \<open>The first whitespace-delimited token of a line, when it has one.\<close>

definition first_token :: "pystr \<Rightarrow> pystr option" where
  "first_token line =
     (let rest = dropWhile is_space line
      in if rest = [] then None else Some (takeWhile (\<lambda>c. \<not> is_space c) rest))"

text \<open>
  The sections that the banner headers of a paragraph sequence start: each header opens a
  section with its name, holding the paragraphs up to the next header.
\<close>

fun named_sections :: "Paragraph list \<Rightarrow> Section list" where
  "named_sections [] = []"
| "named_sections (p # ps) =
     (if banner_header (splitlines (contents p))
      then \<lparr>name = Some (strip (slice_1_neg1 (splitlines (contents p) ! 2))),
            paragraphs = takeWhile (\<lambda>q. \<not> banner_header (splitlines (contents q))) ps\<rparr>
           # named_sections ps
      else named_sections ps)"

section \<open>Vocabulary of the proofs\<close>

text \<open>A string without a line break, and a list of lines each closed by a line feed.\<close>

definition one_line :: "pystr \<Rightarrow> bool" where
  "one_line l = (\<forall>c\<in>set l. \<not> is_linebreak c)"

definition unlines :: "pystr list \<Rightarrow> pystr" where
  "unlines ls = concat (map (\<lambda>l. l @ [10]) ls)"

text \<open>
  Construction without the error plumbing: \<open>add_paragraph\<close> is one round of the section
  loop on the whole list of sections, \<open>parse_sections\<close> the sections of the document
  built from a text, \<open>flush\<close> the end of the paragraph loop.
\<close>

definition is_banner :: "Paragraph \<Rightarrow> bool" where
  "is_banner p = banner_header (splitlines (contents p))"

definition add_paragraph :: "Section list \<Rightarrow> Paragraph \<Rightarrow> Section list" where
  "add_paragraph secs p =
     (if is_banner p
      then secs @ [\<lparr>name = Some (header_name (splitlines (contents p))), paragraphs = []\<rparr>]
      else butlast secs @ [(last secs)\<lparr>paragraphs := paragraphs (last secs) @ [p]\<rparr>])"

definition parse_sections :: "pystr \<Rightarrow> Section list" where
  "parse_sections inp =
     foldl add_paragraph [\<lparr>name = None, paragraphs = []\<rparr>] (break_paragraphs (splitlines inp))"

definition flush :: "Paragraph list \<times> pystr list \<Rightarrow> Paragraph list" where
  "flush st = (case st of (paras, plines) \<Rightarrow>
     if plines \<noteq> [] then paras @ [\<lparr>contents = join_lines plines\<rparr>] else paras)"

text \<open>
  What construction leaves: a paragraph is a non-empty list of non-blank lines joined by
  line feeds; a name has at most 78 characters, no line break and no whitespace at its
  ends; no paragraph of a section is a banner; only the first section may be unnamed.
\<close>

definition good_lines :: "pystr list \<Rightarrow> bool" where
  "good_lines ls = (ls \<noteq> [] \<and> (\<forall>l\<in>set ls. one_line l \<and> strip l \<noteq> []))"

definition wf_par :: "Paragraph \<Rightarrow> bool" where
  "wf_par p = (good_lines (splitlines (contents p))
               \<and> join_lines (splitlines (contents p)) = contents p)"

definition good_name :: "pystr \<Rightarrow> bool" where
  "good_name n = (length n \<le> 78 \<and> one_line n \<and> strip n = n)"

definition wf_sec :: "Section \<Rightarrow> bool" where
  "wf_sec s = ((case name s of None \<Rightarrow> True | Some n \<Rightarrow> good_name n)
               \<and> (\<forall>p\<in>set (paragraphs s). wf_par p \<and> \<not> is_banner p))"

definition wf_doc :: "Section list \<Rightarrow> bool" where
  "wf_doc secs = (secs \<noteq> [] \<and> (\<forall>s\<in>set secs. wf_sec s) \<and> (\<forall>s\<in>set (tl secs). name s \<noteq> None))"

text \<open>
  The serialized text seen as blocks of lines, each block preceded by an empty line, and
  the paragraphs that the blocks of a section are read back as.
\<close>

definition header_lines :: "pystr \<Rightarrow> pystr list" where
  "header_lines n =
     [header_line_full, header_line_empty, title_line n, header_line_empty, header_line_full]"

definition sec_blocks :: "Section \<Rightarrow> pystr list list" where
  "sec_blocks s = (case name s of None \<Rightarrow> [] | Some n \<Rightarrow> [[], header_lines n])
                  @ map (\<lambda>p. splitlines (contents p)) (paragraphs s)"

definition sec_pars :: "Section \<Rightarrow> Paragraph list" where
  "sec_pars s = (case name s of None \<Rightarrow> []
                 | Some n \<Rightarrow> [\<lparr>contents = join_lines (header_lines n)\<rparr>])
                @ paragraphs s"

definition blocks_text :: "pystr list list \<Rightarrow> pystr" where
  "blocks_text bs = unlines (concat (map ((#) []) bs))"

section \<open>Lines\<close>

lemma linebreak_chars [simp]:
  "is_linebreak 10" "\<not> is_linebreak 35" "\<not> is_linebreak 32" "\<not> is_linebreak 92"
  by (simp_all add: is_linebreak_def)

lemma space_chars [simp]:
  "is_space 32" "is_space 10" "\<not> is_space 35" "\<not> is_space 92"
  by (simp_all add: is_space_def)

lemma one_line_simps [simp]:
  "one_line []"
  "one_line (c # l) \<longleftrightarrow> \<not> is_linebreak c \<and> one_line l"
  "one_line (l @ m) \<longleftrightarrow> one_line l \<and> one_line m"
  "one_line (replicate n c) \<longleftrightarrow> n = 0 \<or> \<not> is_linebreak c"
  by (auto simp: one_line_def)

lemma splitlines_Nil_iff [simp]: "splitlines s = [] \<longleftrightarrow> s = []"
  by (cases s) (auto split: list.splits)

lemma splitlines_line: "one_line l \<Longrightarrow> splitlines (l @ 10 # rest) = l # splitlines rest"
  by (induction l) auto

lemma splitlines_prefix:
  "one_line l \<Longrightarrow> splitlines (l @ s) =
     (case splitlines s of [] \<Rightarrow> (if l = [] then [] else [l]) | m # ms \<Rightarrow> (l @ m) # ms)"
  by (induction l) (auto split: list.splits)

lemma splitlines_single: "one_line l \<Longrightarrow> l \<noteq> [] \<Longrightarrow> splitlines l = [l]"
  using splitlines_prefix [of l "[]"] by simp

lemma splitlines_one_line: "l \<in> set (splitlines s) \<Longrightarrow> one_line l"
  by (induction s arbitrary: l rule: splitlines.induct) (auto split: if_splits list.splits)

lemma splitlines_unlines:
  "\<forall>l\<in>set ls. one_line l \<Longrightarrow> splitlines (unlines ls @ rest) = ls @ splitlines rest"
  by (induction ls) (auto simp: unlines_def splitlines_line)

lemma unlines_simps [simp]:
  "unlines [] = []" "unlines (l # ls) = l @ 10 # unlines ls"
  "unlines (ls @ ms) = unlines ls @ unlines ms"
  by (simp_all add: unlines_def)

lemma join_lines_unlines: "ls \<noteq> [] \<Longrightarrow> join_lines ls @ [10] = unlines ls"
  by (induction ls rule: join_lines.induct) auto

lemma splitlines_join_lines:
  "\<forall>l\<in>set ls. one_line l \<and> l \<noteq> [] \<Longrightarrow> splitlines (join_lines ls) = ls"
  by (induction ls rule: join_lines.induct) (auto simp: splitlines_single splitlines_line)

subsection \<open>Stripping\<close>

lemma all_dropWhile: "(\<forall>x\<in>set (dropWhile P l). P x) \<longleftrightarrow> (\<forall>x\<in>set l. P x)"
  by (induction l) auto

lemma strip_Nil_iff: "strip l = [] \<longleftrightarrow> (\<forall>c\<in>set l. is_space c)"
  by (simp add: strip_def all_dropWhile)

section \<open>Construction never raises\<close>

lemma py_index_nat:
  "py_index xs (int i) = (if i < length xs then Inr (xs ! i) else Inl IndexError)"
  by (simp add: py_index_def)

lemma py_index_0: "py_index xs 0 = (if xs = [] then Inl IndexError else Inr (xs ! 0))"
  using py_index_nat [of xs 0] by simp

lemma py_index_numeral:
  "py_index xs (numeral k) =
     (if numeral k < length xs then Inr (xs ! numeral k) else Inl IndexError)"
  using py_index_nat [of xs "numeral k"] by simp

lemma py_index_1: "py_index xs 1 = (if 1 < length xs then Inr (xs ! 1) else Inl IndexError)"
  using py_index_nat [of xs 1] by simp

lemma py_index_last: "py_index xs (- 1) = (if xs = [] then Inl IndexError else Inr (last xs))"
proof (cases xs rule: rev_cases)
  case Nil
  then show ?thesis by (simp add: py_index_def)
next
  case (snoc ys y)
  then show ?thesis by (simp add: py_index_def)
qed

lemma py_and_Inr: "py_and (Inr b) x = (if b then x else Inr False)"
  by (cases b) auto

lemma is_header_eq: "is_header plines = Inr (banner_header plines)"
proof (cases "length plines = 5")
  case False
  then show ?thesis by (simp add: is_header_def banner_header_def py_and_Inr)
next
  case True
  show ?thesis
  proof (cases "length (plines ! 2) = 80")
    case False
    with True show ?thesis
      by (simp add: is_header_def banner_header_def py_and_Inr py_index_0 py_index_1
          py_index_numeral) (auto simp: header_line_full_def header_line_empty_def)
  next
    case l80: True
    then have ne: "plines ! 2 \<noteq> []" by auto
    with True l80 show ?thesis
      by (simp add: is_header_def banner_header_def py_and_Inr py_index_0 py_index_1
          py_index_numeral py_index_last hd_conv_nth)
        (auto simp: header_line_full_def header_line_empty_def)
  qed
qed

lemma section_step_eq:
  "section_step (prev, cur) p =
     Inr (if is_banner p
          then (prev @ [cur],
                \<lparr>name = Some (header_name (splitlines (contents p))), paragraphs = []\<rparr>)
          else (prev, cur\<lparr>paragraphs := paragraphs cur @ [p]\<rparr>))"
  by (auto simp: section_step_def is_banner_def is_header_eq Let_def
      banner_header_def py_index_numeral header_name_def)

lemma section_step_add:
  "\<exists>prev' cur'. section_step (prev, cur) p = Inr (prev', cur')
      \<and> prev' @ [cur'] = add_paragraph (prev @ [cur]) p"
  by (simp add: section_step_eq add_paragraph_def)

lemma section_loop_eq:
  "\<exists>prev' cur'. section_loop ps (prev, cur) = Inr (prev', cur')
      \<and> prev' @ [cur'] = foldl add_paragraph (prev @ [cur]) ps"
proof (induction ps arbitrary: prev cur)
  case Nil
  then show ?case by simp
next
  case (Cons p ps)
  from section_step_add [of prev cur p] obtain prev1 cur1 where
    step: "section_step (prev, cur) p = Inr (prev1, cur1)"
    and app: "prev1 @ [cur1] = add_paragraph (prev @ [cur]) p" by blast
  from Cons [of prev1 cur1] show ?case by (simp add: step app)
qed

lemma Makefile_init_eq:
  "Makefile_init inp = Inr \<lparr>sections = parse_sections inp, original = inp\<rparr>"
proof -
  from section_loop_eq [of "break_paragraphs (splitlines inp)" "[]" "\<lparr>name = None, paragraphs = []\<rparr>"]
  obtain prev cur where
    "section_loop (break_paragraphs (splitlines inp)) ([], \<lparr>name = None, paragraphs = []\<rparr>)
       = Inr (prev, cur)"
    "prev @ [cur] = parse_sections inp"
    by (auto simp: parse_sections_def)
  then show ?thesis by (simp add: Makefile_init_def)
qed

subsection \<open>Names and paragraphs of the constructed sections\<close>

lemma add_paragraph_not_Nil [simp]: "add_paragraph secs p \<noteq> []"
  by (simp add: add_paragraph_def)

lemma fold_names:
  "secs \<noteq> [] \<Longrightarrow> map name (foldl add_paragraph secs ps) =
     map name secs @ map (\<lambda>p. Some (header_name (splitlines (contents p)))) (filter is_banner ps)"
proof (induction ps arbitrary: secs)
  case Nil
  then show ?case by simp
next
  case (Cons p ps)
  have "map name (add_paragraph secs p) =
          map name secs @ (if is_banner p then [Some (header_name (splitlines (contents p)))] else [])"
    using Cons.prems
    by (cases secs rule: rev_cases) (auto simp: add_paragraph_def)
  with Cons.IH [of "add_paragraph secs p"] show ?case by simp
qed

lemma fold_paragraphs:
  "secs \<noteq> [] \<Longrightarrow> concat (map paragraphs (foldl add_paragraph secs ps)) =
     concat (map paragraphs secs) @ filter (\<lambda>p. \<not> is_banner p) ps"
proof (induction ps arbitrary: secs)
  case Nil
  then show ?case by simp
next
  case (Cons p ps)
  have "concat (map paragraphs (add_paragraph secs p)) =
          concat (map paragraphs secs) @ (if is_banner p then [] else [p])"
    using Cons.prems
    by (cases secs rule: rev_cases) (auto simp: add_paragraph_def)
  with Cons.IH [of "add_paragraph secs p"] show ?case by simp
qed

subsection \<open>More on stripping\<close>

lemma strip_pad_left: "\<forall>c\<in>set a. is_space c \<Longrightarrow> strip (a @ s) = strip s"
  by (simp add: strip_def)

lemma strip_pad_right:
  assumes "\<forall>c\<in>set b. is_space c"
  shows "strip (s @ b) = strip s"
proof (cases "\<forall>c\<in>set s. is_space c")
  case True
  with assms have "strip (s @ b) = []" "strip s = []"
    by (auto simp: strip_Nil_iff)
  then show ?thesis by simp
next
  case False
  then obtain x where "x \<in> set s" "\<not> is_space x" by blast
  then have "dropWhile is_space (s @ b) = dropWhile is_space s @ b" by simp
  moreover have "dropWhile is_space (rev b @ rev (dropWhile is_space s))
                   = dropWhile is_space (rev (dropWhile is_space s))"
    by (rule dropWhile_append2) (use assms in auto)
  ultimately show ?thesis by (simp add: strip_def)
qed

lemma set_strip: "set (strip s) \<subseteq> set s"
  by (auto simp: strip_def dest!: set_dropWhileD)

lemma length_strip: "length (strip s) \<le> length s"
proof -
  have "length (strip s) \<le> length (dropWhile is_space s)"
    unfolding strip_def using length_dropWhile_le [of is_space "rev (dropWhile is_space s)"]
    by simp
  also have "\<dots> \<le> length s" by (rule length_dropWhile_le)
  finally show ?thesis .
qed

lemma strip_ends:
  assumes "strip s \<noteq> []"
  shows "\<not> is_space (hd (strip s))" "\<not> is_space (last (strip s))"
proof -
  define u where "u = dropWhile is_space s"
  define v where "v = dropWhile is_space (rev u)"
  have t: "strip s = rev v" by (simp add: strip_def u_def v_def)
  with assms have v: "v \<noteq> []" by simp
  then have "\<not> is_space (hd v)" unfolding v_def by (rule hd_dropWhile)
  with v show "\<not> is_space (last (strip s))" by (simp add: t last_rev)
  have "rev u = takeWhile is_space (rev u) @ v" by (simp add: v_def)
  then have "u = rev v @ rev (takeWhile is_space (rev u))"
    by (metis rev_append rev_rev_ident)
  with v have "hd u = hd (rev v)" by (metis hd_append2 rev_is_Nil_conv)
  moreover have "u \<noteq> []" using v by (auto simp: v_def)
  then have "\<not> is_space (hd u)" unfolding u_def by (rule hd_dropWhile)
  ultimately show "\<not> is_space (hd (strip s))" by (simp add: t)
qed

lemma strip_fixed: "s = [] \<or> (\<not> is_space (hd s) \<and> \<not> is_space (last s)) \<Longrightarrow> strip s = s"
proof (cases "s = []")
  case True
  then show ?thesis by (simp add: strip_def)
next
  case False
  assume "s = [] \<or> (\<not> is_space (hd s) \<and> \<not> is_space (last s))"
  with False have h: "\<not> is_space (hd s)" and l: "\<not> is_space (last s)" by auto
  from False h have "dropWhile is_space s = s" by (cases s) auto
  moreover from False l have "dropWhile is_space (rev s) = rev s"
    by (cases s rule: rev_cases) auto
  ultimately show ?thesis by (simp add: strip_def)
qed

lemma strip_idem: "strip (strip s) = strip s"
  using strip_ends [of s] by (intro strip_fixed) auto

section \<open>The paragraph loop\<close>

lemma break_paragraphs_flush: "break_paragraphs lines = flush (paragraph_loop lines [] [])"
  by (simp add: break_paragraphs_def flush_def)

lemma loop_blank:
  "strip l = [] \<Longrightarrow> paragraph_loop (l # rest) ps pl = paragraph_loop rest (flush (ps, pl)) []"
  by (simp add: flush_def)

lemma loop_block:
  "\<forall>l\<in>set ls. strip l \<noteq> [] \<Longrightarrow>
     paragraph_loop (ls @ rest) ps pl = paragraph_loop rest ps (pl @ ls)"
  by (induction ls arbitrary: pl) auto

lemma loop_blocks:
  "\<forall>b\<in>set bs. \<forall>l\<in>set b. strip l \<noteq> [] \<Longrightarrow>
     flush (paragraph_loop (concat (map ((#) []) bs)) ps pl) =
       flush (ps, pl) @ map (\<lambda>b. \<lparr>contents = join_lines b\<rparr>) (filter (\<lambda>b. b \<noteq> []) bs)"
proof (induction bs arbitrary: ps pl)
  case Nil
  then show ?case by simp
next
  case (Cons b bs)
  have "paragraph_loop (concat (map ((#) []) (b # bs))) ps pl =
          paragraph_loop (b @ concat (map ((#) []) bs)) (flush (ps, pl)) []"
    using loop_blank [of "[]" "b @ concat (map ((#) []) bs)" ps pl] by (simp add: strip_def)
  also have "\<dots> = paragraph_loop (concat (map ((#) []) bs)) (flush (ps, pl)) b"
    using Cons.prems by (simp add: loop_block)
  finally show ?case using Cons by (simp add: flush_def)
qed

lemma strip_nonempty: "strip l \<noteq> [] \<Longrightarrow> l \<noteq> []"
  by (auto simp: strip_def)

lemma good_lines_wf: "good_lines ls \<Longrightarrow> wf_par \<lparr>contents = join_lines ls\<rparr>"
proof -
  assume g: "good_lines ls"
  then have "\<forall>l\<in>set ls. one_line l \<and> l \<noteq> []"
    by (auto simp: good_lines_def dest: strip_nonempty)
  then have "splitlines (join_lines ls) = ls" by (rule splitlines_join_lines)
  with g show ?thesis by (simp add: wf_par_def)
qed

lemma loop_wf:
  "\<forall>l\<in>set lines. one_line l \<Longrightarrow> \<forall>p\<in>set ps. wf_par p
     \<Longrightarrow> \<forall>l\<in>set pl. one_line l \<and> strip l \<noteq> []
     \<Longrightarrow> \<forall>p\<in>set (flush (paragraph_loop lines ps pl)). wf_par p"
proof (induction lines arbitrary: ps pl)
  case Nil
  then show ?case by (auto simp: flush_def good_lines_def intro!: good_lines_wf)
next
  case (Cons l lines)
  show ?case
  proof (cases "strip l = []")
    case True
    have "\<forall>p\<in>set (flush (ps, pl)). wf_par p"
      using Cons.prems by (auto simp: flush_def good_lines_def intro!: good_lines_wf)
    with Cons.IH [of "flush (ps, pl)" "[]"] Cons.prems True show ?thesis
      by (simp add: loop_blank del: paragraph_loop.simps)
  next
    case False
    with Cons.IH [of ps "pl @ [l]"] Cons.prems show ?thesis by simp
  qed
qed

lemma break_paragraphs_wf: "\<forall>p\<in>set (break_paragraphs (splitlines inp)). wf_par p"
  unfolding break_paragraphs_flush
  by (rule loop_wf) (auto intro: splitlines_one_line)

section \<open>Banners\<close>

lemma blocks_text_simps [simp]:
  "blocks_text [] = []"
  "blocks_text (b # bs) = 10 # unlines b @ blocks_text bs"
  "blocks_text (bs @ cs) = blocks_text bs @ blocks_text cs"
  by (simp_all add: blocks_text_def)

lemma title_line_eq:
  "length n \<le> 78 \<Longrightarrow> title_line n =
     [35] @ replicate ((78 - length n) div 2) 32 @ n
          @ replicate ((78 - length n) - (78 - length n) div 2) 32 @ [35]"
proof -
  assume le: "length n \<le> 78"
  define k where "k = 78 - length n"
  have k: "78 - int (length n) = int k" using le by (simp add: k_def)
  have "nat (int k div 2) = k div 2" by (simp add: nat_div_distrib)
  moreover have "nat (int k - int k div 2) = k - k div 2"
    by (metis nat_int of_nat_diff div_le_dividend zdiv_int of_nat_numeral)
  ultimately show ?thesis by (simp add: title_line_def k Let_def k_def)
qed

lemma length_title_line: "length n \<le> 78 \<Longrightarrow> length (title_line n) = 80"
  by (simp add: title_line_eq)

lemma title_line_ends: "hd (title_line n) = 35" "last (title_line n) = 35"
  by (simp_all add: title_line_def Let_def)

lemma header_lines_banner: "length n \<le> 78 \<Longrightarrow> banner_header (header_lines n)"
  by (simp add: banner_header_def header_lines_def length_title_line title_line_ends
      header_line_full_def header_line_empty_def)

lemma header_lines_name: "length n \<le> 78 \<Longrightarrow> header_name (header_lines n) = strip n"
proof -
  assume le: "length n \<le> 78"
  have "slice_1_neg1 (title_line n) =
          replicate ((78 - length n) div 2) 32 @ n
          @ replicate ((78 - length n) - (78 - length n) div 2) 32"
    using le by (simp add: title_line_eq slice_1_neg1_def)
  then show ?thesis
    by (simp add: header_name_def header_lines_def strip_pad_left strip_pad_right
        flip: append_assoc)
qed

lemma header_lines_one_line:
  "one_line n \<Longrightarrow> l \<in> set (header_lines n) \<Longrightarrow> one_line l"
  by (auto simp: header_lines_def header_line_full_def header_line_empty_def title_line_def
      Let_def)

lemma has_hash_not_blank: "35 \<in> set l \<Longrightarrow> strip l \<noteq> []"
  unfolding strip_Nil_iff using space_chars(3) by blast

lemma header_lines_not_blank: "l \<in> set (header_lines n) \<Longrightarrow> strip l \<noteq> []"
  by (rule has_hash_not_blank)
    (auto simp: header_lines_def header_line_full_def header_line_empty_def title_line_def
      Let_def)

lemma header_par_banner:
  assumes "good_name n"
  shows "is_banner \<lparr>contents = join_lines (header_lines n)\<rparr>"
    and "header_name (splitlines (contents \<lparr>contents = join_lines (header_lines n)\<rparr>)) = n"
proof -
  have "\<forall>l\<in>set (header_lines n). one_line l \<and> l \<noteq> []"
    using assms header_lines_one_line [of n] header_lines_not_blank [of _ n]
    by (auto simp: good_name_def dest: strip_nonempty)
  then have sp: "splitlines (join_lines (header_lines n)) = header_lines n"
    by (rule splitlines_join_lines)
  from assms have le: "length n \<le> 78" and st: "strip n = n" by (auto simp: good_name_def)
  show "is_banner \<lparr>contents = join_lines (header_lines n)\<rparr>"
    by (simp add: is_banner_def sp header_lines_banner le)
  show "header_name (splitlines (contents \<lparr>contents = join_lines (header_lines n)\<rparr>)) = n"
    by (simp add: sp header_lines_name le st)
qed

section \<open>The serialized text as blocks of lines\<close>

lemma output_paragraphs_True:
  "output_paragraphs ps True out = out @ concat (map (\<lambda>p. 10 # contents p @ [10]) ps)"
  by (induction ps arbitrary: out) simp_all

lemma wf_par_unlines: "wf_par p \<Longrightarrow> contents p @ [10] = unlines (splitlines (contents p))"
  using join_lines_unlines [of "splitlines (contents p)"]
  by (simp add: wf_par_def good_lines_def)

lemma paragraphs_text:
  "\<forall>p\<in>set ps. wf_par p \<Longrightarrow>
     concat (map (\<lambda>p. 10 # contents p @ [10]) ps)
       = blocks_text (map (\<lambda>p. splitlines (contents p)) ps)"
  by (induction ps) (simp_all add: wf_par_unlines)

lemma output_section_named:
  "name s = Some n \<Longrightarrow> \<forall>p\<in>set (paragraphs s). wf_par p \<Longrightarrow>
     output_section out s = out @ blocks_text (sec_blocks s)"
  by (simp add: output_section_def output_paragraphs_True paragraphs_text sec_blocks_def
      header_lines_def)

lemma output_section_unnamed:
  assumes "name s = None" "\<forall>p\<in>set (paragraphs s). wf_par p"
  shows "(if paragraphs s = [] then [] else [10]) @ output_section [] s
           = blocks_text (sec_blocks s)"
proof (cases "paragraphs s")
  case Nil
  with assms show ?thesis by (simp add: output_section_def sec_blocks_def)
next
  case (Cons p ps)
  with assms have "concat (map (\<lambda>p. 10 # contents p @ [10]) ps)
       = blocks_text (map (\<lambda>p. splitlines (contents p)) ps)"
    by (intro paragraphs_text) simp
  with assms Cons show ?thesis
    by (simp add: output_section_def sec_blocks_def output_paragraphs_True wf_par_unlines)
qed

lemma output_named_sections:
  "\<forall>s\<in>set secs. name s \<noteq> None \<and> (\<forall>p\<in>set (paragraphs s). wf_par p) \<Longrightarrow>
     foldl output_section out secs = out @ blocks_text (concat (map sec_blocks secs))"
proof (induction secs arbitrary: out)
  case Nil
  then show ?case by simp
next
  case (Cons s secs)
  then obtain n where "name s = Some n" by auto
  with Cons.prems have "output_section out s = out @ blocks_text (sec_blocks s)"
    by (intro output_section_named) auto
  with Cons show ?case by simp
qed

lemma output_doc:
  assumes "wf_doc secs"
  shows "(if name (hd secs) = None \<and> paragraphs (hd secs) \<noteq> [] then [10] else [])
           @ foldl output_section [] secs
         = blocks_text (concat (map sec_blocks secs))"
proof -
  from assms obtain s0 rest where secs: "secs = s0 # rest" by (cases secs) (auto simp: wf_doc_def)
  from assms secs have wf0: "\<forall>p\<in>set (paragraphs s0). wf_par p"
    and rest: "\<forall>s\<in>set rest. name s \<noteq> None \<and> (\<forall>p\<in>set (paragraphs s). wf_par p)"
    by (auto simp: wf_doc_def wf_sec_def)
  define R where "R = blocks_text (concat (map sec_blocks rest))"
  have out: "foldl output_section [] secs = output_section [] s0 @ R"
    using output_named_sections [OF rest, of "output_section [] s0"] by (simp add: secs R_def)
  have blk: "blocks_text (concat (map sec_blocks secs)) = blocks_text (sec_blocks s0) @ R"
    by (simp add: secs R_def)
  have hd: "hd secs = s0" by (simp add: secs)
  show ?thesis
  proof (cases "name s0")
    case None
    from output_section_unnamed [OF None wf0] None show ?thesis
      unfolding out blk hd by (auto split: if_splits)
  next
    case (Some n)
    from output_section_named [OF Some wf0, of "[]"] Some show ?thesis
      unfolding out blk hd by simp
  qed
qed

lemma break_paragraphs_blank: "break_paragraphs ([] # lines) = break_paragraphs lines"
  using loop_blank [of "[]" lines "[]" "[]"]
  by (simp add: break_paragraphs_flush strip_def flush_def del: paragraph_loop.simps)

lemma sec_blocks_lines:
  assumes "wf_sec s" "b \<in> set (sec_blocks s)" "l \<in> set b"
  shows "one_line l \<and> strip l \<noteq> []"
proof (cases "\<exists>p\<in>set (paragraphs s). b = splitlines (contents p)")
  case True
  with assms show ?thesis by (auto simp: wf_sec_def wf_par_def good_lines_def)
next
  case False
  show ?thesis
  proof (cases "name s")
    case None
    with assms False show ?thesis by (auto simp: sec_blocks_def)
  next
    case (Some n)
    with assms False have "l \<in> set (header_lines n)" by (auto simp: sec_blocks_def)
    with assms Some show ?thesis
      using header_lines_one_line [of n l] header_lines_not_blank [of l n]
      by (auto simp: wf_sec_def good_name_def)
  qed
qed

lemma sec_blocks_pars:
  assumes "wf_sec s"
  shows "map (\<lambda>b. \<lparr>contents = join_lines b\<rparr>) (filter (\<lambda>b. b \<noteq> []) (sec_blocks s))
           = sec_pars s"
proof -
  have "map (\<lambda>b. \<lparr>contents = join_lines b\<rparr>)
          (filter (\<lambda>b. b \<noteq> []) (map (\<lambda>p. splitlines (contents p)) ps)) = ps"
    if "\<forall>p\<in>set ps. wf_par p" for ps
    using that by (induction ps) (auto simp: wf_par_def good_lines_def)
  with assms show ?thesis
    by (auto simp: sec_blocks_def sec_pars_def wf_sec_def header_lines_def split: option.splits)
qed

lemma reparse_paragraphs:
  assumes "wf_doc secs"
  shows "break_paragraphs (splitlines (foldl output_section [] secs))
           = concat (map sec_pars secs)"
proof -
  define bs where "bs = concat (map sec_blocks secs)"
  have lines: "\<forall>b\<in>set bs. \<forall>l\<in>set b. one_line l \<and> strip l \<noteq> []"
    using assms sec_blocks_lines by (auto simp: bs_def wf_doc_def)
  then have "\<forall>l\<in>set (concat (map ((#) []) bs)). one_line l" by auto
  from splitlines_unlines [OF this, of "[]"]
  have sl: "splitlines (blocks_text bs) = concat (map ((#) []) bs)"
    by (simp add: blocks_text_def)
  have "break_paragraphs (splitlines (foldl output_section [] secs))
          = break_paragraphs (splitlines (blocks_text bs))"
  proof (cases "name (hd secs) = None \<and> paragraphs (hd secs) \<noteq> []")
    case True
    with output_doc [OF assms]
    have "blocks_text bs = 10 # foldl output_section [] secs" by (simp add: bs_def)
    then have "splitlines (blocks_text bs) = [] # splitlines (foldl output_section [] secs)"
      by simp
    then show ?thesis by (simp only: break_paragraphs_blank)
  next
    case False
    with output_doc [OF assms] show ?thesis by (simp add: bs_def)
  qed
  also have "\<dots> = map (\<lambda>b. \<lparr>contents = join_lines b\<rparr>) (filter (\<lambda>b. b \<noteq> []) bs)"
    using loop_blocks [of bs "[]" "[]"] lines
    by (simp add: sl break_paragraphs_flush flush_def)
  also have "\<dots> = concat (map sec_pars secs)"
    using assms sec_blocks_pars
    by (simp add: bs_def wf_doc_def map_concat filter_concat comp_def cong: map_cong)
  finally show ?thesis .
qed

section \<open>Reading the serialized text back\<close>

lemma fold_plain:
  "\<forall>p\<in>set qs. \<not> is_banner p \<Longrightarrow>
     foldl add_paragraph (S @ [s]) qs = S @ [s\<lparr>paragraphs := paragraphs s @ qs\<rparr>]"
proof (induction qs arbitrary: s)
  case Nil
  then show ?case by simp
next
  case (Cons q qs)
  then have "add_paragraph (S @ [s]) q = S @ [s\<lparr>paragraphs := paragraphs s @ [q]\<rparr>]"
    by (simp add: add_paragraph_def)
  with Cons.IH [of "s\<lparr>paragraphs := paragraphs s @ [q]\<rparr>"] Cons.prems show ?case by simp
qed

lemma fold_section:
  assumes "wf_sec s" "name s = Some n"
  shows "foldl add_paragraph S (sec_pars s) = S @ [s]"
proof -
  from assms have gn: "good_name n" and nb: "\<forall>p\<in>set (paragraphs s). \<not> is_banner p"
    by (auto simp: wf_sec_def)
  have "foldl add_paragraph S (sec_pars s)
          = foldl add_paragraph (S @ [\<lparr>name = Some n, paragraphs = []\<rparr>]) (paragraphs s)"
    using header_par_banner [OF gn] assms(2) by (simp add: sec_pars_def add_paragraph_def)
  also have "\<dots> = S @ [s]"
    using assms(2) by (simp add: fold_plain [OF nb])
  finally show ?thesis .
qed

lemma fold_sections:
  "\<forall>s\<in>set secs. wf_sec s \<and> name s \<noteq> None \<Longrightarrow>
     foldl add_paragraph S (concat (map sec_pars secs)) = S @ secs"
proof (induction secs arbitrary: S)
  case Nil
  then show ?case by simp
next
  case (Cons s secs)
  then obtain n where "name s = Some n" by auto
  with Cons.prems have "foldl add_paragraph S (sec_pars s) = S @ [s]"
    by (intro fold_section) auto
  with Cons.IH [of "S @ [s]"] Cons.prems show ?case by simp
qed

lemma reparse_sections:
  assumes "wf_doc secs"
  shows "parse_sections (foldl output_section [] secs)
           = (if name (hd secs) = None then secs else \<lparr>name = None, paragraphs = []\<rparr> # secs)"
proof -
  from assms obtain s0 rest where secs: "secs = s0 # rest" by (cases secs) (auto simp: wf_doc_def)
  from assms secs have wf0: "wf_sec s0"
    and rest: "\<forall>s\<in>set rest. wf_sec s \<and> name s \<noteq> None"
    by (auto simp: wf_doc_def)
  have p: "parse_sections (foldl output_section [] secs)
             = foldl add_paragraph [\<lparr>name = None, paragraphs = []\<rparr>] (concat (map sec_pars secs))"
    by (simp only: parse_sections_def reparse_paragraphs [OF assms])
  show ?thesis
  proof (cases "name s0")
    case None
    from wf0 have "\<forall>p\<in>set (paragraphs s0). \<not> is_banner p" by (simp add: wf_sec_def)
    from fold_plain [OF this, of "[]" "\<lparr>name = None, paragraphs = []\<rparr>"] None
    have "foldl add_paragraph [\<lparr>name = None, paragraphs = []\<rparr>] (sec_pars s0) = [s0]"
      by (simp add: sec_pars_def)
    with fold_sections [OF rest, of "[s0]"] None show ?thesis
      unfolding p by (simp add: secs)
  next
    case (Some n)
    with wf0 rest have "\<forall>s\<in>set secs. wf_sec s \<and> name s \<noteq> None" by (simp add: secs)
    from fold_sections [OF this] Some show ?thesis unfolding p by (simp add: secs)
  qed
qed

subsection \<open>Construction leaves a well-formed document\<close>

lemma banner_good_name:
  assumes "wf_par p" "is_banner p"
  shows "good_name (header_name (splitlines (contents p)))"
proof -
  define t where "t = splitlines (contents p) ! 2"
  from assms have len: "length t = 80" and mem: "t \<in> set (splitlines (contents p))"
    by (auto simp: is_banner_def banner_header_def t_def)
  from mem have ol: "one_line t" by (rule splitlines_one_line)
  have "set (slice_1_neg1 t) \<subseteq> set t"
    by (auto simp: slice_1_neg1_def dest!: in_set_takeD in_set_dropD)
  with ol set_strip [of "slice_1_neg1 t"] have "one_line (strip (slice_1_neg1 t))"
    by (auto simp: one_line_def)
  moreover have "length (strip (slice_1_neg1 t)) \<le> 78"
    using length_strip [of "slice_1_neg1 t"] len by (simp add: slice_1_neg1_def)
  ultimately show ?thesis
    by (simp add: good_name_def header_name_def strip_idem flip: t_def)
qed

lemma add_paragraph_wf:
  assumes "wf_doc secs" "wf_par p" "name (hd secs) = None"
  shows "wf_doc (add_paragraph secs p) \<and> name (hd (add_paragraph secs p)) = None"
proof (cases "is_banner p")
  case True
  with assms banner_good_name [OF assms(2)] show ?thesis
    by (cases secs) (auto simp: add_paragraph_def wf_doc_def wf_sec_def)
next
  case False
  from assms obtain S s where secs: "secs = S @ [s]"
    by (cases secs rule: rev_cases) (auto simp: wf_doc_def)
  with assms False show ?thesis
    by (cases S) (auto simp: add_paragraph_def wf_doc_def wf_sec_def)
qed

lemma fold_wf:
  "wf_doc secs \<Longrightarrow> name (hd secs) = None \<Longrightarrow> \<forall>p\<in>set ps. wf_par p \<Longrightarrow>
     wf_doc (foldl add_paragraph secs ps) \<and> name (hd (foldl add_paragraph secs ps)) = None"
proof (induction ps arbitrary: secs)
  case Nil
  then show ?case by simp
next
  case (Cons p ps)
  with add_paragraph_wf [of secs p] show ?case by simp
qed

lemma parse_sections_wf:
  "wf_doc (parse_sections inp)" "name (hd (parse_sections inp)) = None"
  using fold_wf [of "[\<lparr>name = None, paragraphs = []\<rparr>]" "break_paragraphs (splitlines inp)"]
    break_paragraphs_wf [of inp]
  by (simp_all add: parse_sections_def wf_doc_def wf_sec_def)

lemma roundtrip:
  "parse_sections (get_output \<lparr>sections = parse_sections inp, original = inp\<rparr>)
     = parse_sections inp"
  using reparse_sections [OF parse_sections_wf(1) [of inp]] parse_sections_wf(2) [of inp]
  by (simp add: get_output_def)

section \<open>Continuation markers\<close>

lemma remove_continuations_Cons:
  "remove_continuations (c # s) =
     (if c = 92 \<and> take 1 s = [10] then remove_continuations (tl s)
      else c # remove_continuations s)"
  by (cases s) auto

lemma in_marker_shift:
  "0 < i \<Longrightarrow> in_marker (c # s) (Suc i) = in_marker s i"
  by (cases i) (auto simp: in_marker_def)

lemma in_marker_0: "in_marker (c # s) 0 \<longleftrightarrow> c = 92 \<and> take 1 s = [10]"
  by (cases s) (auto simp: in_marker_def)

lemma in_marker_1:
  "in_marker (c # d # s) (Suc 0) \<longleftrightarrow> (d = 92 \<and> take 1 s = [10]) \<or> (d = 10 \<and> c = 92)"
  by (cases s) (auto simp: in_marker_def)

lemma delete_tail:
  "map ((!) (c # s)) (filter (\<lambda>i. \<not> in_marker (c # s) i) [1..<Suc (length s)])
     = (if c = 92 \<and> take 1 s = [10] then remove_continuations (tl s)
        else remove_continuations s)"
proof (induction s arbitrary: c)
  case Nil
  then show ?case by simp
next
  case (Cons d s)
  define R where "R = (if d = 92 \<and> take 1 s = [10] then remove_continuations (tl s)
                       else remove_continuations s)"
  define T where "T = map ((!) (c # d # s))
                        (filter (\<lambda>i. \<not> in_marker (c # d # s) i) (map Suc [1..<Suc (length s)]))"
  have idx: "[1..<Suc (length (d # s))] = 1 # map Suc [1..<Suc (length s)]"
    by (simp add: upt_conv_Cons map_Suc_upt del: upt_Suc)
  have shift: "filter (\<lambda>i. \<not> in_marker (c # d # s) i) (map Suc xs)
                 = map Suc (filter (\<lambda>i. \<not> in_marker (d # s) i) xs)"
    if "\<forall>i\<in>set xs. 0 < i" for xs
    using that by (induction xs) (simp_all add: in_marker_shift)
  have "T = map ((!) (d # s)) (filter (\<lambda>i. \<not> in_marker (d # s) i) [1..<Suc (length s)])"
    unfolding T_def by (subst shift) (simp_all del: upt_Suc)
  also have "\<dots> = R" unfolding R_def by (rule Cons.IH)
  finally have T: "T = R" .
  have "map ((!) (c # d # s)) (filter (\<lambda>i. \<not> in_marker (c # d # s) i) [1..<Suc (length (d # s))])
          = (if in_marker (c # d # s) 1 then [] else [d]) @ T"
    unfolding idx T_def by simp
  also have "\<dots> = (if c = 92 \<and> take 1 (d # s) = [10] then remove_continuations (tl (d # s))
                      else remove_continuations (d # s))"
    unfolding T R_def by (auto simp: in_marker_1 remove_continuations_Cons)
  finally show ?case .
qed

lemma remove_continuations_delete: "remove_continuations s = delete_markers s"
proof (cases s)
  case Nil
  then show ?thesis by (simp add: delete_markers_def)
next
  case (Cons c s')
  have "[0..<length (c # s')] = 0 # [1..<Suc (length s')]"
    by (simp add: upt_conv_Cons del: upt_Suc)
  then have "delete_markers (c # s') =
      (if in_marker (c # s') 0 then [] else [c])
      @ map ((!) (c # s')) (filter (\<lambda>i. \<not> in_marker (c # s') i) [1..<Suc (length s')])"
    by (simp add: delete_markers_def)
  then show ?thesis
    unfolding Cons delete_tail by (auto simp: in_marker_0 remove_continuations_Cons)
qed

lemma rc_plain: "10 \<notin> set l \<Longrightarrow> remove_continuations l = l"
  by (induction l rule: remove_continuations.induct) auto

lemma rc_continued:
  "10 \<notin> set l \<Longrightarrow> remove_continuations (l @ 92 # 10 # rest) = l @ remove_continuations rest"
  by (induction l rule: remove_continuations.induct) auto

lemma rc_ended:
  "10 \<notin> set l \<Longrightarrow> l \<noteq> [] \<Longrightarrow> last l \<noteq> 92 \<Longrightarrow>
     remove_continuations (l @ 10 # rest) = l @ 10 # remove_continuations rest"
proof (induction l)
  case Nil
  then show ?case by simp
next
  case (Cons a l)
  show ?case
  proof (cases l)
    case Nil
    with Cons.prems show ?thesis by (cases rest) auto
  next
    case (Cons b l')
    with Cons.prems Cons.IH show ?thesis by auto
  qed
qed

lemma one_line_no_nl: "one_line l \<Longrightarrow> 10 \<notin> set l"
  using linebreak_chars(1) by (auto simp: one_line_def)

subsection \<open>Logical lines of stored paragraphs\<close>

lemma logical_lines_good:
  "good_lines ls \<Longrightarrow>
     splitlines (remove_continuations (join_lines ls)) \<noteq> []
     \<and> (\<forall>m\<in>set (splitlines (remove_continuations (join_lines ls))). strip m \<noteq> [])"
proof (induction ls rule: join_lines.induct)
  case 1
  then show ?case by (simp add: good_lines_def)
next
  case (2 l)
  then have "one_line l" "strip l \<noteq> []" by (auto simp: good_lines_def)
  then show ?case
    using strip_nonempty [of l] by (simp add: rc_plain one_line_no_nl splitlines_single)
next
  case (3 l l2 ls)
  let ?J = "remove_continuations (join_lines (l2 # ls))"
  from "3.prems" have l: "one_line l" "strip l \<noteq> []" and g: "good_lines (l2 # ls)"
    by (auto simp: good_lines_def)
  from "3.IH" [OF g] have ne: "splitlines ?J \<noteq> []"
    and nb: "\<forall>m\<in>set (splitlines ?J). strip m \<noteq> []" by auto
  from l have lne: "l \<noteq> []" by (auto dest: strip_nonempty)
  show ?case
  proof (cases "last l = 92")
    case True
    with lne obtain l' where l': "l = l' @ [92]" by (metis append_butlast_last_id)
    with l have ol: "one_line l'" by simp
    then have "remove_continuations (join_lines (l # l2 # ls)) = l' @ ?J"
      using rc_continued [of l' "join_lines (l2 # ls)"] by (simp add: l' one_line_no_nl)
    moreover from ne obtain m ms where m: "splitlines ?J = m # ms" by (cases "splitlines ?J") auto
    ultimately have sp: "splitlines (remove_continuations (join_lines (l # l2 # ls))) = (l' @ m) # ms"
      by (simp add: splitlines_prefix [OF ol])
    from nb m have "strip m \<noteq> []" "\<forall>x\<in>set ms. strip x \<noteq> []" by simp_all
    then show ?thesis unfolding sp by (auto simp: strip_Nil_iff)
  next
    case False
    with l lne have "remove_continuations (join_lines (l # l2 # ls)) = l @ 10 # ?J"
      using rc_ended [of l "join_lines (l2 # ls)"] by (simp add: one_line_no_nl)
    with l nb show ?thesis by (simp add: splitlines_line)
  qed
qed

lemma wf_par_logical_lines:
  "wf_par p \<Longrightarrow> line \<in> set (get_logical_lines p) \<Longrightarrow> strip line \<noteq> []"
  using logical_lines_good [of "splitlines (contents p)"]
  by (simp add: wf_par_def get_logical_lines_def)

section \<open>Lookup\<close>

lemma split_ws_Nil_iff: "split_ws l = [] \<longleftrightarrow> strip l = []"
  by (induction l rule: split_ws.induct) (auto simp: strip_Nil_iff)

lemma hd_split_ws:
  "split_ws l \<noteq> [] \<Longrightarrow>
     hd (split_ws l) = takeWhile (\<lambda>c. \<not> is_space c) (dropWhile is_space l)"
  by (induction l rule: split_ws.induct) auto

lemma target_test_eq:
  "strip line \<noteq> [] \<Longrightarrow> target_test nm line = Inr (first_token line = Some (nm @ [58]))"
  using hd_split_ws [of line]
  by (auto simp: target_test_def py_index_0 split_ws_Nil_iff hd_conv_nth first_token_def Let_def
      strip_Nil_iff)

lemma split_sep_not_Nil [simp]: "split_sep sep s \<noteq> []"
  by (induction s) (auto split: list.splits)

lemma hd_split_sep: "hd (split_sep sep s) = takeWhile (\<lambda>c. c \<noteq> sep) s"
  by (induction s) (auto split: list.splits)

lemma assign_test_eq:
  "assign_test nm line = Inr (strip (takeWhile (\<lambda>c. c \<noteq> 61) line) = nm)"
  using hd_split_sep [of 61 line]
  by (simp add: assign_test_def py_index_0 hd_conv_nth)

lemma any_line_eq:
  "\<forall>line\<in>set ls. test line = Inr (t line) \<Longrightarrow> any_line test ls = Inr (\<exists>line\<in>set ls. t line)"
  by (induction ls) auto

lemma scan_paragraphs_eq:
  "\<forall>p\<in>set ps. \<forall>line\<in>set (get_logical_lines p). test line = Inr (t line) \<Longrightarrow>
     scan_paragraphs test sec i ps found =
       Inr (found @ map (\<lambda>j. (sec, i + j))
                      (filter (\<lambda>j. \<exists>line\<in>set (get_logical_lines (ps ! j)). t line)
                         [0..<length ps]))"
proof (induction ps arbitrary: i found)
  case Nil
  then show ?case by simp
next
  case (Cons p ps)
  have idx: "[0..<length (p # ps)] = 0 # map Suc [0..<length ps]"
    by (simp add: upt_conv_Cons map_Suc_upt del: upt_Suc)
  from Cons.prems have "any_line test (get_logical_lines p)
                          = Inr (\<exists>line\<in>set (get_logical_lines p). t line)"
    by (intro any_line_eq) simp
  moreover from Cons.prems
  have "\<forall>p\<in>set ps. \<forall>line\<in>set (get_logical_lines p). test line = Inr (t line)" by simp
  note Cons.IH [OF this]
  ultimately show ?case
    unfolding idx by (simp add: filter_map comp_def del: upt_Suc)
qed

lemma scan_sections_eq:
  "\<forall>sec\<in>set secs. \<forall>p\<in>set (paragraphs sec). \<forall>line\<in>set (get_logical_lines p).
      test line = Inr (t line) \<Longrightarrow>
     scan_sections test secs found = Inr (found @ hits t secs)"
proof (induction secs arbitrary: found)
  case Nil
  then show ?case by (simp add: hits_def)
next
  case (Cons sec secs)
  from Cons.prems have "scan_paragraphs test sec 0 (paragraphs sec) found =
       Inr (found @ map (\<lambda>j. (sec, 0 + j))
                      (filter (\<lambda>j. \<exists>line\<in>set (get_logical_lines (paragraphs sec ! j)). t line)
                         [0..<length (paragraphs sec)]))"
    by (intro scan_paragraphs_eq) simp
  moreover from Cons.prems have "\<And>f. scan_sections test secs f = Inr (f @ hits t secs)"
    by (intro Cons.IH) simp
  ultimately show ?case by (simp add: hits_def)
qed

lemma find_assigns_eq:
  "find_assigns mk nm
     = Inr (hits (\<lambda>line. strip (takeWhile (\<lambda>c. c \<noteq> 61) line) = nm) (sections mk))"
  using scan_sections_eq [of "sections mk" "assign_test nm"
      "\<lambda>line. strip (takeWhile (\<lambda>c. c \<noteq> 61) line) = nm" "[]"]
  by (simp add: find_assigns_def assign_test_eq)

lemma parsed_logical_lines:
  "sec \<in> set (parse_sections inp) \<Longrightarrow> p \<in> set (paragraphs sec) \<Longrightarrow>
     line \<in> set (get_logical_lines p) \<Longrightarrow> strip line \<noteq> []"
  using parse_sections_wf(1) [of inp] wf_par_logical_lines [of p line]
  by (auto simp: wf_doc_def wf_sec_def)

lemma find_targets_eq:
  "find_targets \<lparr>sections = parse_sections inp, original = inp\<rparr> nm
     = Inr (hits (\<lambda>line. first_token line = Some (nm @ [58])) (parse_sections inp))"
  using scan_sections_eq [of "parse_sections inp" "target_test nm"
      "\<lambda>line. first_token line = Some (nm @ [58])" "[]"]
  by (simp add: find_targets_def target_test_eq parsed_logical_lines)

section \<open>A banner inside any serialized text\<close>

lemma splitlines_after_nl: "splitlines (A @ 10 # X) = splitlines (A @ [10]) @ splitlines X"
proof (induction A rule: splitlines.induct)
  case 1
  then show ?case by simp
next
  case (2 c cs)
  show ?case
  proof (cases "is_linebreak c")
    case False
    with 2 show ?thesis by (auto split: list.splits)
  next
    case lb: True
    show ?thesis
    proof (cases cs)
      case Nil
      with lb show ?thesis by simp
    next
      case (Cons d ds)
      with 2 lb show ?thesis by (auto split: if_splits)
    qed
  qed
qed

lemma loop_append:
  "paragraph_loop (xs @ ys) ps pl =
     (case paragraph_loop xs ps pl of (ps', pl') \<Rightarrow> paragraph_loop ys ps' pl')"
  by (induction xs arbitrary: ps pl) auto

lemma loop_extends: "\<exists>qs. fst (paragraph_loop xs ps pl) = ps @ qs"
  by (induction xs arbitrary: ps pl) (auto, metis append.assoc)

lemma flush_extends: "\<exists>qs. flush (paragraph_loop xs ps pl) = ps @ qs"
  using loop_extends [of xs ps pl]
  by (cases "paragraph_loop xs ps pl") (auto simp: flush_def)

lemma output_paragraphs_False:
  "output_paragraphs ps False out =
     out @ (case ps of [] \<Rightarrow> []
            | p # ps' \<Rightarrow> contents p @ [10] @ concat (map (\<lambda>p. 10 # contents p @ [10]) ps'))"
  by (cases ps) (simp_all add: output_paragraphs_True)

lemma output_section_app: "output_section out s = out @ output_section [] s"
  by (simp add: output_section_def output_paragraphs_True output_paragraphs_False
      split: option.splits)

lemma foldl_output: "foldl output_section out secs = out @ concat (map (output_section []) secs)"
proof (induction secs arbitrary: out)
  case Nil
  then show ?case by simp
next
  case (Cons s secs)
  from Cons [of "output_section out s"] output_section_app [of out s] show ?case by simp
qed

lemma named_output:
  "name s = Some n \<Longrightarrow>
     output_section [] s = [10, 10] @ unlines (header_lines n)
                           @ concat (map (\<lambda>p. 10 # contents p @ [10]) (paragraphs s))"
  by (simp add: output_section_def output_paragraphs_True header_lines_def)

lemma named_outputs_start:
  "\<forall>s\<in>set secs. name s \<noteq> None \<Longrightarrow>
     concat (map (output_section []) secs) = [] \<or> hd (concat (map (output_section []) secs)) = 10"
  by (cases secs) (auto simp: named_output)

lemma banner_paragraph_found:
  assumes "L2 = [] \<or> hd L2 = []" "\<forall>l\<in>set H. strip l \<noteq> []" "H \<noteq> []"
  shows "\<lparr>contents = join_lines H\<rparr> \<in> set (break_paragraphs (L1 @ [] # H @ L2))"
proof -
  obtain ps1 pl1 where l1: "paragraph_loop L1 [] [] = (ps1, pl1)" by fastforce
  define F where "F = flush (ps1, pl1)"
  have "paragraph_loop (L1 @ [] # H @ L2) [] [] = paragraph_loop ([] # H @ L2) ps1 pl1"
    by (simp add: loop_append l1 del: paragraph_loop.simps)
  also have "\<dots> = paragraph_loop (H @ L2) F []"
    unfolding F_def by (rule loop_blank) (simp add: strip_def)
  also have "\<dots> = paragraph_loop L2 F H"
    using assms(2) by (simp add: loop_block)
  finally have eq: "break_paragraphs (L1 @ [] # H @ L2) = flush (paragraph_loop L2 F H)"
    by (simp add: break_paragraphs_flush)
  show ?thesis
  proof (cases L2)
    case Nil
    from eq assms(3) show ?thesis by (simp add: Nil flush_def)
  next
    case (Cons l L2')
    with assms(1) have "l = []" by simp
    then have "paragraph_loop L2 F H = paragraph_loop L2' (flush (F, H)) []"
      unfolding Cons by (intro loop_blank) (simp add: strip_def)
    moreover obtain qs where "flush (paragraph_loop L2' (flush (F, H)) []) = flush (F, H) @ qs"
      using flush_extends by blast
    ultimately show ?thesis using assms(3) unfolding eq by (simp add: flush_def)
  qed
qed

lemma banner_section_found:
  assumes "p \<in> set ps" "is_banner p"
  shows "Some (header_name (splitlines (contents p)))
           \<in> set (map name (foldl add_paragraph [\<lparr>name = None, paragraphs = []\<rparr>] ps))"
  using assms fold_names [of "[\<lparr>name = None, paragraphs = []\<rparr>]" ps] by auto

lemma splitlines_start: "s = [] \<or> hd s = 10 \<Longrightarrow> splitlines s = [] \<or> hd (splitlines s) = []"
  by (cases s) auto

section \<open>The section loop over the whole paragraph sequence\<close>

lemma section_loop_fold:
  "section_loop ps st =
     Inr (foldl (\<lambda>st p. case st of (prev, cur) \<Rightarrow>
                   if banner_header (splitlines (contents p))
                   then (prev @ [cur],
                         \<lparr>name = Some (strip (slice_1_neg1 (splitlines (contents p) ! 2))),
                          paragraphs = []\<rparr>)
                   else (prev, cur\<lparr>paragraphs := paragraphs cur @ [p]\<rparr>))
            st ps)"
proof (induction ps arbitrary: st)
  case Nil
  then show ?case by simp
next
  case (Cons p ps)
  obtain prev cur where st: "st = (prev, cur)" by (cases st)
  show ?case
    by (simp add: st section_step_eq is_banner_def header_name_def Cons)
qed

lemma fold_named_sections:
  "foldl add_paragraph (S @ [s]) ps =
     S @ [s\<lparr>paragraphs := paragraphs s
                @ takeWhile (\<lambda>q. \<not> banner_header (splitlines (contents q))) ps\<rparr>]
       @ named_sections ps"
proof (induction ps arbitrary: S s)
  case Nil
  then show ?case by simp
next
  case (Cons p ps)
  show ?case
  proof (cases "is_banner p")
    case True
    then have "add_paragraph (S @ [s]) p =
        (S @ [s]) @ [\<lparr>name = Some (header_name (splitlines (contents p))), paragraphs = []\<rparr>]"
      by (simp add: add_paragraph_def)
    with Cons [of "S @ [s]"] True show ?thesis
      by (simp add: is_banner_def header_name_def)
  next
    case False
    then have "add_paragraph (S @ [s]) p = S @ [s\<lparr>paragraphs := paragraphs s @ [p]\<rparr>]"
      by (simp add: add_paragraph_def)
    with Cons [of S] False show ?thesis
      by (simp add: is_banner_def)
  qed
qed

section \<open>Evaluation\<close>

lemma dropWhile_spaces: "dropWhile is_space (replicate n 32 @ s) = dropWhile is_space s"
  by (induction n) simp_all

text \<open>The equations that evaluate the model on a concrete input.\<close>

lemmas eval_defs = ascii_def is_linebreak_def is_space_def strip_def break_paragraphs_def
  Makefile_init_def section_step_def is_header_def py_index_def Let_def get_output_def
  output_section_def header_line_full_def header_line_empty_def slice_1_neg1_def
  title_line_def get_logical_lines_def find_assigns_def find_targets_def assign_test_def
  target_test_def hits_def first_token_def splitlines_prefix splitlines_single nth_append
  dropWhile_spaces header_lines_def

section \<open>The claims\<close>

text \<open>
  C1. For every input text, serializing the document constructed from it gives a text
  that is a fixed point: constructing a document from that text and serializing again
  returns the same text. Neither construction raises, and the second document has the
  sections of the first.
\<close>

theorem C1_serialization_fixed_point:
  "\<exists>mk mk2. Makefile_init inp = Inr mk
      \<and> Makefile_init (get_output mk) = Inr mk2
      \<and> sections mk2 = sections mk
      \<and> get_output mk2 = get_output mk"
  using roundtrip [of inp] by (simp add: Makefile_init_eq get_output_def)

theorem C1_serialization_fixed_point_witness:
  "\<exists>mk mk2. Makefile_init (ascii ''a'' @ [10, 10, 10] @ ascii ''b'') = Inr mk
      \<and> Makefile_init (get_output mk) = Inr mk2
      \<and> sections mk2 = sections mk
      \<and> get_output mk2 = get_output mk
      \<and> get_output mk = ascii ''a'' @ [10, 10] @ ascii ''b'' @ [10]"
proof -
  from C1_serialization_fixed_point [of "ascii ''a'' @ [10, 10, 10] @ ascii ''b''"]
  obtain mk mk2 where
    *: "Makefile_init (ascii ''a'' @ [10, 10, 10] @ ascii ''b'') = Inr mk"
       "Makefile_init (get_output mk) = Inr mk2"
       "sections mk2 = sections mk" "get_output mk2 = get_output mk"
    by blast
  from *(1) have "get_output mk = ascii ''a'' @ [10, 10] @ ascii ''b'' @ [10]"
    by (auto simp: eval_defs)
  with * show ?thesis by blast
qed

text \<open>
  C2. For every input text, construction returns a document whose number of sections is
  one more than the number of banner headers among the paragraphs of the input: the
  unnamed leading section comes first, and the named sections follow, one for each header
  paragraph, in input order, each named by the stripped interior of its title line.
\<close>

theorem C2_section_count:
  "\<exists>mk. Makefile_init inp = Inr mk
     \<and> length (sections mk)
         = Suc (length (filter (\<lambda>p. banner_header (splitlines (contents p)))
                          (break_paragraphs (splitlines inp))))
     \<and> map name (sections mk)
         = None # map (\<lambda>p. Some (strip (slice_1_neg1 (splitlines (contents p) ! 2))))
                    (filter (\<lambda>p. banner_header (splitlines (contents p)))
                       (break_paragraphs (splitlines inp)))"
proof -
  let ?ps = "break_paragraphs (splitlines inp)"
  have n: "map name (parse_sections inp)
             = None # map (\<lambda>p. Some (strip (slice_1_neg1 (splitlines (contents p) ! 2))))
                        (filter (\<lambda>p. banner_header (splitlines (contents p))) ?ps)"
    using fold_names [of "[\<lparr>name = None, paragraphs = []\<rparr>]" ?ps]
    by (simp add: parse_sections_def is_banner_def header_name_def cong: filter_cong)
  from arg_cong [OF n, of length] have "length (parse_sections inp)
      = Suc (length (filter (\<lambda>p. banner_header (splitlines (contents p))) ?ps))"
    by simp
  with n show ?thesis by (simp add: Makefile_init_eq)
qed

theorem C2_section_count_witness:
  "\<exists>mk. Makefile_init (ascii ''x = 1'' @ [10, 10]
                         @ header_line_full @ [10] @ header_line_empty @ [10]
                         @ title_line (ascii ''BUILD'') @ [10]
                         @ header_line_empty @ [10] @ header_line_full @ [10, 10]
                         @ ascii ''all: x'') = Inr mk
     \<and> length (sections mk) = 2
     \<and> map name (sections mk) = [None, Some (ascii ''BUILD'')]"
  using C2_section_count [of "ascii ''x = 1'' @ [10, 10]
                         @ header_line_full @ [10] @ header_line_empty @ [10]
                         @ title_line (ascii ''BUILD'') @ [10]
                         @ header_line_empty @ [10] @ header_line_full @ [10, 10]
                         @ ascii ''all: x''"]
  by (simp add: eval_defs banner_header_def)

text \<open>
  C3. One round of the section loop starts a new section exactly when the lines of the
  paragraph have the shape \<open>banner_header\<close>: five lines, the first and the fifth of 80
  \<open>#\<close>, the second and the fourth \<open>#\<close>, 78 spaces, \<open>#\<close>, the third of 80 characters with \<open>#\<close>
  at both ends. Every other paragraph is appended, unchanged, to the current section. No
  subscript of the test raises. For every input text construction returns a document, and
  its sections are what these rounds give when they run over every paragraph of the
  input in order, from the empty unnamed section: the unnamed section holds the
  paragraphs before the first header, and every header starts a section that holds the
  paragraphs up to the next header.
\<close>

theorem C3_header_test:
  "section_step (prev, cur) p =
     Inr (if banner_header (splitlines (contents p))
          then (prev @ [cur],
                \<lparr>name = Some (strip (slice_1_neg1 (splitlines (contents p) ! 2))),
                 paragraphs = []\<rparr>)
          else (prev, cur\<lparr>paragraphs := paragraphs cur @ [p]\<rparr>))
   \<and> (\<exists>mk. Makefile_init inp = Inr mk
         \<and> sections mk =
             (case foldl (\<lambda>st p. case st of (prev, cur) \<Rightarrow>
                       if banner_header (splitlines (contents p))
                       then (prev @ [cur],
                             \<lparr>name = Some (strip (slice_1_neg1 (splitlines (contents p) ! 2))),
                              paragraphs = []\<rparr>)
                       else (prev, cur\<lparr>paragraphs := paragraphs cur @ [p]\<rparr>))
                     ([], \<lparr>name = None, paragraphs = []\<rparr>)
                     (break_paragraphs (splitlines inp))
              of (prev, cur) \<Rightarrow> prev @ [cur])
         \<and> sections mk =
             \<lparr>name = None,
              paragraphs = takeWhile (\<lambda>q. \<not> banner_header (splitlines (contents q)))
                             (break_paragraphs (splitlines inp))\<rparr>
             # named_sections (break_paragraphs (splitlines inp)))"
proof -
  let ?ps = "break_paragraphs (splitlines inp)"
  let ?step = "\<lambda>st p. case st of (prev, cur) \<Rightarrow>
                       if banner_header (splitlines (contents p))
                       then (prev @ [cur],
                             \<lparr>name = Some (strip (slice_1_neg1 (splitlines (contents p) ! 2))),
                              paragraphs = []\<rparr>)
                       else (prev, cur\<lparr>paragraphs := paragraphs cur @ [p]\<rparr>)"
  obtain prev' cur' where f: "foldl ?step ([], \<lparr>name = None, paragraphs = []\<rparr>) ?ps = (prev', cur')"
    by fastforce
  have init: "Makefile_init inp = Inr \<lparr>sections = prev' @ [cur'], original = inp\<rparr>"
    by (simp add: Makefile_init_def section_loop_fold f)
  with Makefile_init_eq [of inp] have ps: "prev' @ [cur'] = parse_sections inp" by simp
  have "parse_sections inp =
          \<lparr>name = None,
           paragraphs = takeWhile (\<lambda>q. \<not> banner_header (splitlines (contents q))) ?ps\<rparr>
          # named_sections ?ps"
    using fold_named_sections [of "[]" "\<lparr>name = None, paragraphs = []\<rparr>" ?ps]
    by (simp add: parse_sections_def)
  with init ps f show ?thesis
    by (simp add: section_step_eq is_banner_def header_name_def)
qed

theorem C3_header_test_witness:
  "section_step ([], \<lparr>name = None, paragraphs = []\<rparr>)
       \<lparr>contents = header_line_full @ [10] @ header_line_empty @ [10]
                    @ title_line (ascii ''BUILD'') @ [10]
                    @ header_line_empty @ [10] @ header_line_full\<rparr>
     = Inr ([\<lparr>name = None, paragraphs = []\<rparr>],
            \<lparr>name = Some (ascii ''BUILD''), paragraphs = []\<rparr>)
   \<and> section_step ([], \<lparr>name = None, paragraphs = []\<rparr>)
       \<lparr>contents = header_line_full @ [10] @ header_line_empty @ [10]
                    @ title_line (ascii ''BUILD'') @ [10] @ header_line_empty\<rparr>
     = Inr ([],
            \<lparr>name = None,
             paragraphs = [\<lparr>contents = header_line_full @ [10] @ header_line_empty @ [10]
                    @ title_line (ascii ''BUILD'') @ [10] @ header_line_empty\<rparr>]\<rparr>)
   \<and> (\<exists>mk. Makefile_init (ascii ''x = 1'' @ [10, 10]
                         @ header_line_full @ [10] @ header_line_empty @ [10]
                         @ title_line (ascii ''BUILD'') @ [10]
                         @ header_line_empty @ [10] @ header_line_full @ [10, 10]
                         @ ascii ''all: x'' @ [10, 10] @ header_line_full @ [10]
                         @ ascii ''y'') = Inr mk
         \<and> sections mk =
             [\<lparr>name = None, paragraphs = [\<lparr>contents = ascii ''x = 1''\<rparr>]\<rparr>,
              \<lparr>name = Some (ascii ''BUILD''),
               paragraphs = [\<lparr>contents = ascii ''all: x''\<rparr>,
                             \<lparr>contents = header_line_full @ [10] @ ascii ''y''\<rparr>]\<rparr>])"
proof -
  let ?inp = "ascii ''x = 1'' @ [10, 10]
                         @ header_line_full @ [10] @ header_line_empty @ [10]
                         @ title_line (ascii ''BUILD'') @ [10]
                         @ header_line_empty @ [10] @ header_line_full @ [10, 10]
                         @ ascii ''all: x'' @ [10, 10] @ header_line_full @ [10]
                         @ ascii ''y''"
  let ?hdr = "\<lparr>contents = header_line_full @ [10] @ header_line_empty @ [10]
                    @ title_line (ascii ''BUILD'') @ [10]
                    @ header_line_empty @ [10] @ header_line_full\<rparr>"
  let ?part = "\<lparr>contents = header_line_full @ [10] @ header_line_empty @ [10]
                    @ title_line (ascii ''BUILD'') @ [10] @ header_line_empty\<rparr>"
  have bp: "break_paragraphs (splitlines ?inp)
              = [\<lparr>contents = ascii ''x = 1''\<rparr>, ?hdr, \<lparr>contents = ascii ''all: x''\<rparr>,
                 \<lparr>contents = header_line_full @ [10] @ ascii ''y''\<rparr>]"
    by (simp add: eval_defs)
  from conjunct2 [OF C3_header_test [of "[]" "\<lparr>name = None, paragraphs = []\<rparr>" ?hdr ?inp]]
  obtain mk where mk: "Makefile_init ?inp = Inr mk"
    and secs: "sections mk =
             \<lparr>name = None,
              paragraphs = takeWhile (\<lambda>q. \<not> banner_header (splitlines (contents q)))
                             (break_paragraphs (splitlines ?inp))\<rparr>
             # named_sections (break_paragraphs (splitlines ?inp))"
    by blast
  from secs have "sections mk =
             [\<lparr>name = None, paragraphs = [\<lparr>contents = ascii ''x = 1''\<rparr>]\<rparr>,
              \<lparr>name = Some (ascii ''BUILD''),
               paragraphs = [\<lparr>contents = ascii ''all: x''\<rparr>,
                             \<lparr>contents = header_line_full @ [10] @ ascii ''y''\<rparr>]\<rparr>]"
    unfolding bp by (simp add: eval_defs banner_header_def)
  with mk have 3: "\<exists>mk. Makefile_init ?inp = Inr mk
         \<and> sections mk =
             [\<lparr>name = None, paragraphs = [\<lparr>contents = ascii ''x = 1''\<rparr>]\<rparr>,
              \<lparr>name = Some (ascii ''BUILD''),
               paragraphs = [\<lparr>contents = ascii ''all: x''\<rparr>,
                             \<lparr>contents = header_line_full @ [10] @ ascii ''y''\<rparr>]\<rparr>]"
    by blast
  have 1: "section_step ([], \<lparr>name = None, paragraphs = []\<rparr>) ?hdr
     = Inr ([\<lparr>name = None, paragraphs = []\<rparr>],
            \<lparr>name = Some (ascii ''BUILD''), paragraphs = []\<rparr>)"
    using conjunct1 [OF C3_header_test [of "[]" "\<lparr>name = None, paragraphs = []\<rparr>" ?hdr ?inp]]
    by (simp add: eval_defs banner_header_def)
  have 2: "section_step ([], \<lparr>name = None, paragraphs = []\<rparr>) ?part
     = Inr ([], \<lparr>name = None, paragraphs = [?part]\<rparr>)"
    using conjunct1 [OF C3_header_test [of "[]" "\<lparr>name = None, paragraphs = []\<rparr>" ?part ?inp]]
    by (simp add: eval_defs banner_header_def)
  from 1 2 3 show ?thesis by (intro conjI)
qed

text \<open>
  C4. For every document and every name, \<open>find_assigns\<close> returns, in document order, the
  pairs of a section and an index of a paragraph in it that has a logical line whose text
  before the first \<open>=\<close> (the whole line when it has none) is, stripped, the name. For the
  paragraph \<open>FOO = 1\<close>, \<open>BAR = 2\<close> the name \<open>FOO\<close> has one hit, at index 0 of the unnamed
  leading section, and \<open>BAZ\<close> has none.
\<close>

theorem C4_find_assigns:
  "find_assigns mk nm
     = Inr (hits (\<lambda>line. strip (takeWhile (\<lambda>c. c \<noteq> 61) line) = nm) (sections mk))
   \<and> (\<exists>mk0. Makefile_init (ascii ''FOO = 1'' @ [10] @ ascii ''BAR = 2'') = Inr mk0
         \<and> find_assigns mk0 (ascii ''FOO'')
             = Inr [(\<lparr>name = None,
                      paragraphs = [\<lparr>contents = ascii ''FOO = 1'' @ [10] @ ascii ''BAR = 2''\<rparr>]\<rparr>,
                     0)]
         \<and> find_assigns mk0 (ascii ''BAZ'') = Inr [])"
  by (simp add: find_assigns_eq Makefile_init_eq) (simp add: eval_defs parse_sections_def add_paragraph_def
      is_banner_def banner_header_def)

theorem C4_find_assigns_witness:
  "find_assigns
     \<lparr>sections =
        [\<lparr>name = None,
          paragraphs = [\<lparr>contents = ascii ''A = 1''\<rparr>,
                        \<lparr>contents = ascii ''CC=2'' @ [10] @ ascii ''B = 3''\<rparr>]\<rparr>,
         \<lparr>name = Some (ascii ''S''),
          paragraphs = [\<lparr>contents = ascii ''x''\<rparr>,
                        \<lparr>contents = ascii '' CC '' @ [92, 10] @ ascii '' = 4''\<rparr>]\<rparr>],
      original = []\<rparr>
     (ascii ''CC'')
   = Inr [(\<lparr>name = None,
            paragraphs = [\<lparr>contents = ascii ''A = 1''\<rparr>,
                          \<lparr>contents = ascii ''CC=2'' @ [10] @ ascii ''B = 3''\<rparr>]\<rparr>, 1),
          (\<lparr>name = Some (ascii ''S''),
            paragraphs = [\<lparr>contents = ascii ''x''\<rparr>,
                          \<lparr>contents = ascii '' CC '' @ [92, 10] @ ascii '' = 4''\<rparr>]\<rparr>, 1)]"
  by (simp add: conjunct1 [OF C4_find_assigns]) (simp add: eval_defs)

text \<open>
  C5. For every constructed document and every name, \<open>find_targets\<close> returns the pairs of
  the paragraphs that have a logical line whose first whitespace-delimited token is the
  name directly followed by a colon. For the paragraph \<open>build: dep1 dep2\<close> the name
  \<open>build\<close> has one hit and \<open>buil\<close> none; for \<open>build : dep1\<close> the name \<open>build\<close> has none.
\<close>

theorem C5_find_targets:
  "(\<exists>mk. Makefile_init inp = Inr mk
      \<and> find_targets mk nm
          = Inr (hits (\<lambda>line. first_token line = Some (nm @ [58])) (sections mk)))
   \<and> (\<exists>mk1. Makefile_init (ascii ''build: dep1 dep2'') = Inr mk1
         \<and> find_targets mk1 (ascii ''build'')
             = Inr [(\<lparr>name = None, paragraphs = [\<lparr>contents = ascii ''build: dep1 dep2''\<rparr>]\<rparr>, 0)]
         \<and> find_targets mk1 (ascii ''buil'') = Inr [])
   \<and> (\<exists>mk2. Makefile_init (ascii ''build : dep1'') = Inr mk2
         \<and> find_targets mk2 (ascii ''build'') = Inr [])"
  by (simp add: find_targets_eq Makefile_init_eq) (simp add: eval_defs parse_sections_def add_paragraph_def
      is_banner_def banner_header_def)

theorem C5_find_targets_witness:
  "\<exists>mk. Makefile_init (ascii ''all: a '' @ [92, 10] @ ascii '' b'' @ [10, 9] @ ascii ''cmd''
                         @ [10, 10] @ ascii ''  clean: '' @ [10, 9] @ ascii ''rm'') = Inr mk
     \<and> find_targets mk (ascii ''clean'')
         = Inr [(\<lparr>name = None,
                  paragraphs =
                    [\<lparr>contents = ascii ''all: a '' @ [92, 10] @ ascii '' b'' @ [10, 9] @ ascii ''cmd''\<rparr>,
                     \<lparr>contents = ascii ''  clean: '' @ [10, 9] @ ascii ''rm''\<rparr>]\<rparr>, 1)]"
  using conjunct1 [OF C5_find_targets
      [of "ascii ''all: a '' @ [92, 10] @ ascii '' b'' @ [10, 9] @ ascii ''cmd''
                         @ [10, 10] @ ascii ''  clean: '' @ [10, 9] @ ascii ''rm''"
          "ascii ''clean''"]]
  by (simp add: eval_defs)

text \<open>
  C6 as stated fails for a name that holds a line break. The name \<open>A\<close>, line feed, \<open>B\<close> has
  three characters and no leading or trailing whitespace; the serialized banner then has
  six lines, its third and fourth of 39 and 40 characters, and the document constructed
  from the serialized text has the unnamed section only. It also fails when an unnamed
  section with a paragraph comes directly after the banner: no empty line separates the
  two, and the banner of the section named \<open>X\<close> is read back as part of that paragraph.
\<close>

theorem C6_banner_not_recovered_counterexample:
  "length [65, 10, 66] \<le> 78 \<and> strip [65, 10, 66] = [65, 10, 66]
   \<and> map length
        (splitlines
          (get_output \<lparr>sections = [\<lparr>name = None, paragraphs = []\<rparr>,
                                    \<lparr>name = Some [65, 10, 66], paragraphs = []\<rparr>],
                        original = []\<rparr>))
       = [0, 0, 80, 80, 39, 40, 80, 80]
   \<and> map_sum id (map name \<circ> sections)
        (Makefile_init
          (get_output \<lparr>sections = [\<lparr>name = None, paragraphs = []\<rparr>,
                                    \<lparr>name = Some [65, 10, 66], paragraphs = []\<rparr>],
                        original = []\<rparr>))
       = Inr [None]
   \<and> map_sum id (map name \<circ> sections)
        (Makefile_init
          (get_output \<lparr>sections = [\<lparr>name = None, paragraphs = []\<rparr>,
                                    \<lparr>name = Some (ascii ''X''), paragraphs = []\<rparr>,
                                    \<lparr>name = None, paragraphs = [\<lparr>contents = ascii ''y''\<rparr>]\<rparr>],
                        original = []\<rparr>))
       = Inr [None]"
  by (simp add: eval_defs)

text \<open>
  C6, amended. Let a section have a name \<open>N\<close> of at most 78 characters, without leading or
  trailing whitespace and without a line-break character, in a document whose sections
  after the first are all named. Then the lines of the serialized text hold the banner of
  the section: the full line, the empty line, a title line of exactly 80 characters made of
  \<open>#\<close>, \<open>(78 - len N) div 2\<close> spaces, \<open>N\<close>, the remaining spaces and \<open>#\<close>, the empty line and
  the full line. Constructing a document from the serialized text returns a document with
  a section named \<open>N\<close>.
\<close>

theorem C6_banner_round_trip:
  assumes sec: "sec \<in> set (sections mk)" and nm: "name sec = Some N"
    and len: "length N \<le> 78" and stripped: "strip N = N"
    and line: "\<forall>c\<in>set N. \<not> is_linebreak c"
    and named: "\<forall>s\<in>set (tl (sections mk)). name s \<noteq> None"
  shows "\<exists>before after mk2.
           splitlines (get_output mk)
             = before
               @ [header_line_full, header_line_empty,
                  [35] @ replicate ((78 - length N) div 2) 32 @ N
                       @ replicate ((78 - length N) - (78 - length N) div 2) 32 @ [35],
                  header_line_empty, header_line_full]
               @ after
         \<and> length ([35] @ replicate ((78 - length N) div 2) 32 @ N
                   @ replicate ((78 - length N) - (78 - length N) div 2) 32 @ [35]) = 80
         \<and> Makefile_init (get_output mk) = Inr mk2
         \<and> (\<exists>sec2\<in>set (sections mk2). name sec2 = Some N)"
proof -
  define H where "H = header_lines N"
  from len stripped line have gn: "good_name N" by (simp add: good_name_def one_line_def)
  from sec obtain pre post where split: "sections mk = pre @ sec # post"
    by (auto dest: split_list)
  with named have post: "\<forall>s\<in>set post. name s \<noteq> None" by (cases pre) auto
  define A where "A = concat (map (output_section []) pre)"
  define Post where "Post = concat (map (\<lambda>p. 10 # contents p @ [10]) (paragraphs sec))
                             @ concat (map (output_section []) post)"
  have "get_output mk = concat (map (output_section []) (pre @ sec # post))"
    by (simp only: get_output_def foldl_output split append_Nil)
  then have out: "get_output mk = A @ 10 # 10 # unlines H @ Post"
    by (simp add: named_output [OF nm] A_def Post_def H_def)
  have "Post = [] \<or> hd Post = 10"
    using named_outputs_start [OF post] by (cases "paragraphs sec") (auto simp: Post_def)
  then have L2: "splitlines Post = [] \<or> hd (splitlines Post) = []" by (rule splitlines_start)
  have olH: "\<forall>l\<in>set H. one_line l"
    using gn header_lines_one_line [of N] by (auto simp: H_def good_name_def)
  have lines: "splitlines (get_output mk) = splitlines (A @ [10]) @ [] # H @ splitlines Post"
    unfolding out using splitlines_after_nl [of A "10 # unlines H @ Post"]
      splitlines_unlines [OF olH, of Post] by simp
  have Heq: "H = [header_line_full, header_line_empty,
                  [35] @ replicate ((78 - length N) div 2) 32 @ N
                       @ replicate ((78 - length N) - (78 - length N) div 2) 32 @ [35],
                  header_line_empty, header_line_full]"
    by (simp add: H_def header_lines_def title_line_eq [OF len])
  have "\<forall>l\<in>set H. strip l \<noteq> []" "H \<noteq> []"
    using header_lines_not_blank [of _ N] by (auto simp: H_def header_lines_def)
  from banner_paragraph_found [OF L2 this, of "splitlines (A @ [10])"]
  have "\<lparr>contents = join_lines H\<rparr> \<in> set (break_paragraphs (splitlines (get_output mk)))"
    by (simp add: lines)
  from banner_section_found [OF this] header_par_banner [OF gn]
  have "Some N \<in> set (map name (parse_sections (get_output mk)))"
    by (simp add: parse_sections_def H_def)
  then have found: "\<exists>sec2\<in>set (parse_sections (get_output mk)). name sec2 = Some N"
    by auto
  have "splitlines (get_output mk) = (splitlines (A @ [10]) @ [[]]) @ H @ splitlines Post"
    by (simp add: lines)
  with found show ?thesis
    unfolding Heq using len
    by (intro exI [of _ "splitlines (A @ [10]) @ [[]]"] exI [of _ "splitlines Post"]
        exI [of _ "\<lparr>sections = parse_sections (get_output mk), original = get_output mk\<rparr>"])
      (simp add: Makefile_init_eq)
qed

theorem C6_banner_round_trip_witness:
  "\<lparr>name = Some (ascii ''BUILD TARGETS''), paragraphs = []\<rparr>
     \<in> set [\<lparr>name = None, paragraphs = []\<rparr>,
             \<lparr>name = Some (ascii ''BUILD TARGETS''), paragraphs = []\<rparr>]
   \<and> length (ascii ''BUILD TARGETS'') \<le> 78
   \<and> strip (ascii ''BUILD TARGETS'') = ascii ''BUILD TARGETS''
   \<and> list_all (\<lambda>c. \<not> is_linebreak c) (ascii ''BUILD TARGETS'')
   \<and> (\<exists>before after mk2.
         splitlines
           (get_output \<lparr>sections = [\<lparr>name = None, paragraphs = []\<rparr>,
                                     \<lparr>name = Some (ascii ''BUILD TARGETS''), paragraphs = []\<rparr>],
                         original = []\<rparr>)
           = before
             @ [header_line_full, header_line_empty,
                [35] @ replicate 32 32 @ ascii ''BUILD TARGETS'' @ replicate 33 32 @ [35],
                header_line_empty, header_line_full]
             @ after
       \<and> Makefile_init
           (get_output \<lparr>sections = [\<lparr>name = None, paragraphs = []\<rparr>,
                                     \<lparr>name = Some (ascii ''BUILD TARGETS''), paragraphs = []\<rparr>],
                         original = []\<rparr>) = Inr mk2
       \<and> (\<exists>sec2\<in>set (sections mk2). name sec2 = Some (ascii ''BUILD TARGETS'')))"
proof -
  let ?N = "ascii ''BUILD TARGETS''"
  let ?sec = "\<lparr>name = Some ?N, paragraphs = []\<rparr>"
  let ?mk = "\<lparr>sections = [\<lparr>name = None, paragraphs = []\<rparr>, ?sec], original = []\<rparr>"
  have h: "?sec \<in> set (sections ?mk)" "name ?sec = Some ?N" "length ?N \<le> 78" "strip ?N = ?N"
    "\<forall>c\<in>set ?N. \<not> is_linebreak c" "\<forall>s\<in>set (tl (sections ?mk)). name s \<noteq> None"
    by (simp_all add: ascii_def strip_def is_space_def is_linebreak_def)
  from C6_banner_round_trip [OF h] h show ?thesis
    by (simp add: ascii_def list_all_iff)
qed

text \<open>
  C7. The logical lines of a paragraph are the lines of its contents with every character
  that belongs to a backslash directly followed by a line feed deleted. When \<open>a\<close> and \<open>b\<close>
  hold no line break, the contents \<open>a\<close>, backslash, line feed, \<open>b\<close> have the single logical
  line \<open>a @ b\<close>, with nothing inserted. The function is total.
\<close>

theorem C7_logical_lines:
  "get_logical_lines p = splitlines (delete_markers (contents p))
   \<and> ((\<forall>c\<in>set (a @ b). \<not> is_linebreak c) \<longrightarrow>
        get_logical_lines \<lparr>contents = a @ [92, 10] @ b\<rparr> = (if a @ b = [] then [] else [a @ b]))"
proof -
  have "remove_continuations (a @ [92, 10] @ b) = a @ b" if "one_line a" "one_line b"
    using that by (simp add: rc_continued rc_plain one_line_no_nl)
  then show ?thesis
    by (auto simp: get_logical_lines_def remove_continuations_delete splitlines_single
        one_line_def)
qed

theorem C7_logical_lines_witness:
  "get_logical_lines \<lparr>contents = ascii ''A = 1 '' @ [92, 10] @ ascii ''B = 2''\<rparr>
     = [ascii ''A = 1 B = 2'']
   \<and> delete_markers (ascii ''A = 1 '' @ [92, 10] @ ascii ''B = 2'') = ascii ''A = 1 B = 2''"
  using C7_logical_lines [of "\<lparr>contents = ascii ''A = 1 '' @ [92, 10] @ ascii ''B = 2''\<rparr>"
      "ascii ''A = 1 ''" "ascii ''B = 2''"]
  by (simp add: eval_defs one_line_def flip: remove_continuations_delete)

text \<open>
  C8. For every input text, the paragraphs of all sections of the constructed document,
  concatenated in section order, are the paragraphs of the blank-line grouping without the
  banner headers, in the same order.
\<close>

theorem C8_paragraphs_partition:
  "\<exists>mk. Makefile_init inp = Inr mk
     \<and> concat (map paragraphs (sections mk))
         = filter (\<lambda>p. \<not> banner_header (splitlines (contents p)))
             (break_paragraphs (splitlines inp))"
  using fold_paragraphs [of "[\<lparr>name = None, paragraphs = []\<rparr>]" "break_paragraphs (splitlines inp)"]
  by (simp add: Makefile_init_eq parse_sections_def is_banner_def cong: filter_cong)

theorem C8_paragraphs_partition_witness:
  "\<exists>mk. Makefile_init (ascii ''x = 1'' @ [10, 10]
                         @ header_line_full @ [10] @ header_line_empty @ [10]
                         @ title_line (ascii ''BUILD'') @ [10]
                         @ header_line_empty @ [10] @ header_line_full @ [10, 10]
                         @ ascii ''all: x'') = Inr mk
     \<and> concat (map paragraphs (sections mk))
         = [\<lparr>contents = ascii ''x = 1''\<rparr>, \<lparr>contents = ascii ''all: x''\<rparr>]"
  using C8_paragraphs_partition [of "ascii ''x = 1'' @ [10, 10]
                         @ header_line_full @ [10] @ header_line_empty @ [10]
                         @ title_line (ascii ''BUILD'') @ [10]
                         @ header_line_empty @ [10] @ header_line_full @ [10, 10]
                         @ ascii ''all: x''"]
  by (simp add: eval_defs banner_header_def)

text \<open>
  C9. For every input text, each logical line of each paragraph of the constructed
  document has a character that is not whitespace, so its first token exists, and
  \<open>find_targets\<close> returns a result for every name.
\<close>

theorem C9_logical_lines_not_blank:
  "\<exists>mk. Makefile_init inp = Inr mk
     \<and> (\<forall>sec\<in>set (sections mk). \<forall>p\<in>set (paragraphs sec). \<forall>line\<in>set (get_logical_lines p).
           (\<exists>c\<in>set line. \<not> is_space c) \<and> (\<exists>tok. py_index (split_ws line) 0 = Inr tok))
     \<and> (\<forall>nm. \<exists>found. find_targets mk nm = Inr found)"
proof -
  have "(\<exists>c\<in>set line. \<not> is_space c) \<and> (\<exists>tok. py_index (split_ws line) 0 = Inr tok)"
    if "sec \<in> set (parse_sections inp)" "p \<in> set (paragraphs sec)"
      "line \<in> set (get_logical_lines p)" for sec p line
    using parsed_logical_lines [OF that]
    by (simp add: py_index_0 split_ws_Nil_iff) (simp add: strip_Nil_iff)
  then show ?thesis
    by (simp add: Makefile_init_eq find_targets_eq)
qed

theorem C9_logical_lines_not_blank_witness:
  "\<exists>mk. Makefile_init (ascii ''a '' @ [92, 10] @ ascii ''  b'' @ [10, 32, 10] @ ascii '' c '' @ [92])
            = Inr mk
     \<and> map (\<lambda>sec. map get_logical_lines (paragraphs sec)) (sections mk)
         = [[[ascii ''a   b''], [ascii '' c '' @ [92]]]]
     \<and> (\<forall>sec\<in>set (sections mk). \<forall>p\<in>set (paragraphs sec). \<forall>line\<in>set (get_logical_lines p).
           (\<exists>c\<in>set line. \<not> is_space c) \<and> (\<exists>tok. py_index (split_ws line) 0 = Inr tok))
     \<and> (\<forall>nm. \<exists>found. find_targets mk nm = Inr found)"
proof -
  from C9_logical_lines_not_blank
         [of "ascii ''a '' @ [92, 10] @ ascii ''  b'' @ [10, 32, 10] @ ascii '' c '' @ [92]"]
  obtain mk where
    mk: "Makefile_init (ascii ''a '' @ [92, 10] @ ascii ''  b'' @ [10, 32, 10] @ ascii '' c '' @ [92])
           = Inr mk"
    and *: "\<forall>sec\<in>set (sections mk). \<forall>p\<in>set (paragraphs sec). \<forall>line\<in>set (get_logical_lines p).
           (\<exists>c\<in>set line. \<not> is_space c) \<and> (\<exists>tok. py_index (split_ws line) 0 = Inr tok)"
       "\<forall>nm. \<exists>found. find_targets mk nm = Inr found"
    by blast
  from mk have ll: "map (\<lambda>sec. map get_logical_lines (paragraphs sec)) (sections mk)
                  = [[[ascii ''a   b''], [ascii '' c '' @ [92]]]]"
    by (auto simp: eval_defs)
  show ?thesis by (rule exI [of _ mk], intro conjI; fact)
qed

text \<open>
  C10. A paragraph with a logical line that holds no \<open>=\<close> and is, stripped, the name is
  among the hits of \<open>find_assigns\<close> for that name.
\<close>

theorem C10_assign_without_equals:
  assumes "sec \<in> set (sections mk)" "i < length (paragraphs sec)"
    "line \<in> set (get_logical_lines (paragraphs sec ! i))" "61 \<notin> set line" "strip line = nm"
  shows "\<exists>found. find_assigns mk nm = Inr found \<and> (sec, i) \<in> set found"
proof -
  from assms(4) have "takeWhile (\<lambda>c. c \<noteq> 61) line = line"
    by auto
  with assms(5) have "strip (takeWhile (\<lambda>c. c \<noteq> 61) line) = nm" by (simp only:)
  with assms(3)
  have "\<exists>l\<in>set (get_logical_lines (paragraphs sec ! i)). strip (takeWhile (\<lambda>c. c \<noteq> 61) l) = nm"
    by blast
  with assms(2)
  have "i \<in> set (filter (\<lambda>i. \<exists>l\<in>set (get_logical_lines (paragraphs sec ! i)).
                                 strip (takeWhile (\<lambda>c. c \<noteq> 61) l) = nm)
                     [0..<length (paragraphs sec)])"
    by simp
  with assms(1)
  have "(sec, i) \<in> set (hits (\<lambda>l. strip (takeWhile (\<lambda>c. c \<noteq> 61) l) = nm) (sections mk))"
    unfolding hits_def by (auto simp del: set_filter)
  then show ?thesis by (simp add: find_assigns_eq)
qed

theorem C10_assign_without_equals_witness:
  "Makefile_init (ascii ''FOO'')
     = Inr \<lparr>sections = [\<lparr>name = None, paragraphs = [\<lparr>contents = ascii ''FOO''\<rparr>]\<rparr>],
            original = ascii ''FOO''\<rparr>
   \<and> 61 \<notin> set (ascii ''FOO'')
   \<and> (\<exists>found.
         find_assigns \<lparr>sections = [\<lparr>name = None, paragraphs = [\<lparr>contents = ascii ''FOO''\<rparr>]\<rparr>],
                        original = ascii ''FOO''\<rparr> (ascii ''FOO'') = Inr found
         \<and> (\<lparr>name = None, paragraphs = [\<lparr>contents = ascii ''FOO''\<rparr>]\<rparr>, 0) \<in> set found)"
proof -
  have init: "Makefile_init (ascii ''FOO'')
     = Inr \<lparr>sections = [\<lparr>name = None, paragraphs = [\<lparr>contents = ascii ''FOO''\<rparr>]\<rparr>],
            original = ascii ''FOO''\<rparr>"
    by (simp add: eval_defs)
  have "\<exists>found. find_assigns \<lparr>sections = [\<lparr>name = None, paragraphs = [\<lparr>contents = ascii ''FOO''\<rparr>]\<rparr>],
                        original = ascii ''FOO''\<rparr> (ascii ''FOO'') = Inr found
         \<and> (\<lparr>name = None, paragraphs = [\<lparr>contents = ascii ''FOO''\<rparr>]\<rparr>, 0) \<in> set found"
    by (rule C10_assign_without_equals [where line = "ascii ''FOO''"]) (simp_all add: eval_defs)
  with init show ?thesis by (simp add: ascii_def)
qed

end
